theory Spec2Isabelle
  imports Main
begin

section \<open>The regular-expression engine of main.py\<close>

text \<open>
  A shallow embedding of the class \<open>RegexEngine\<close>. Strings are lists of characters
  (code points below 256), slices are \<open>take\<close> and \<open>drop\<close>. Exceptions are values of
  the type \<open>error\<close>. The matcher is a Python generator that shares the mutable list
  \<open>self.captures\<close> with whoever iterates over it; it is embedded in continuation-passing
  style: the body of the consumer's \<open>for\<close> loop is the continuation, every \<open>yield\<close>
  is a call of it, and the capture table is passed along and handed back. Recursion
  depth is bounded by a fuel argument, and running out of fuel is the outcome
  \<open>OutOfFuel\<close>.
\<close>

subsection \<open>Data\<close>

type_synonym captures = "string option list"

record RegexEngine =
  pattern :: string
  captures :: captures
  num_capture_groups :: nat

datatype error = RuntimeError string | IndexError | ValueError | TypeError

text \<open>The pair \<open>(atom_type, atom)\<close> that the parsers return, as one tagged value.\<close>

datatype atom =
    Backreference nat
  | Escape char
  | Literal char
  | Class string
  | Wildcard
  | Group "string list"

text \<open>
  What a generator hands back to the code that iterates over it: it is exhausted
  (\<open>Cont\<close>, with the capture table as it stands), the consumer stopped iterating
  (\<open>Stop\<close>, with the consumer's result), an exception went through (\<open>Raise\<close>), or the
  recursion did not end within the fuel.
\<close>

datatype 'r outcome =
    OutOfFuel
  | Raise error captures
  | Stop 'r captures
  | Cont captures

datatype 'a result = Diverges | Raises error RegexEngine | Returns 'a RegexEngine

definition bs :: char where
  "bs = CHR 0x5C"

definition quote :: char where
  "quote = CHR 0x27"

subsection \<open>Python list indexing and loops over lists\<close>

text \<open>
  \<open>xs[i]\<close> and \<open>xs[i] = v\<close>: an index from \<open>-len(xs)\<close> up to \<open>-1\<close> counts from the end,
  and an index outside \<open>-len(xs) .. len(xs) - 1\<close> raises \<open>IndexError\<close>.
\<close>

definition py_index :: "'a list \<Rightarrow> int \<Rightarrow> nat option" where
  "py_index xs i =
     (if 0 \<le> i \<and> i < int (length xs) then Some (nat i)
      else if i < 0 \<and> - int (length xs) \<le> i then Some (nat (int (length xs) + i))
      else None)"

definition py_getitem :: "'a list \<Rightarrow> int \<Rightarrow> error + 'a" where
  "py_getitem xs i = (case py_index xs i of None \<Rightarrow> Inl IndexError | Some j \<Rightarrow> Inr (xs ! j))"

definition py_setitem :: "'a list \<Rightarrow> int \<Rightarrow> 'a \<Rightarrow> error + 'a list" where
  "py_setitem xs i v =
     (case py_index xs i of None \<Rightarrow> Inl IndexError | Some j \<Rightarrow> Inr (xs[j := v]))"

text \<open>\<open>for x in xs: body\<close>, where the body may stop the loop or raise.\<close>

fun for_each :: "'a list \<Rightarrow> ('a \<Rightarrow> captures \<Rightarrow> 'r outcome) \<Rightarrow> captures \<Rightarrow> 'r outcome" where
  "for_each [] body s = Cont s"
| "for_each (x # xs) body s =
     (case body x s of Cont s' \<Rightarrow> for_each xs body s' | r \<Rightarrow> r)"

subsection \<open>Counting groups\<close>

fun count_capture_groups :: "string \<Rightarrow> nat" where
  "count_capture_groups [] = 0"
| "count_capture_groups (c # cs) =
     (if c = bs then count_capture_groups (tl cs)
      else if c = CHR ''('' then 1 + count_capture_groups cs
      else count_capture_groups cs)"

definition init :: "string \<Rightarrow> RegexEngine" where
  "init pat = \<lparr>pattern = pat, captures = [], num_capture_groups = count_capture_groups pat\<rparr>"

subsection \<open>Character tests\<close>

text \<open>\<open>str.isdigit\<close> and \<open>str.isalpha\<close> on the code points below 256.\<close>

definition is_digit :: "char \<Rightarrow> bool" where
  "is_digit c =
     (let n = (of_char c :: nat)
      in (48 \<le> n \<and> n \<le> 57) \<or> n = 0xB2 \<or> n = 0xB3 \<or> n = 0xB9)"

definition is_alpha :: "char \<Rightarrow> bool" where
  "is_alpha c =
     (let n = (of_char c :: nat)
      in (0x41 \<le> n \<and> n \<le> 0x5A) \<or> (0x61 \<le> n \<and> n \<le> 0x7A) \<or> n = 0xAA \<or> n = 0xB5
         \<or> n = 0xBA \<or> (0xC0 \<le> n \<and> n \<le> 0xD6) \<or> (0xD8 \<le> n \<and> n \<le> 0xF6) \<or> 0xF8 \<le> n)"

definition is_underscore :: "char \<Rightarrow> bool" where
  "is_underscore c = (c = CHR ''_'')"

text \<open>\<open>int(esc)\<close>: the superscript digits pass \<open>isdigit\<close> and are refused by \<open>int\<close>.\<close>

definition int_of_char :: "char \<Rightarrow> error + nat" where
  "int_of_char c =
     (let n = (of_char c :: nat)
      in if 48 \<le> n \<and> n \<le> 57 then Inr (n - 48) else Inl ValueError)"

function match_class_loop :: "char \<Rightarrow> string \<Rightarrow> nat \<Rightarrow> bool" where
  "match_class_loop c class_str i =
     (if i < length class_str then
        (if i + 2 < length class_str \<and> class_str ! (i + 1) = CHR ''-'' then
           (if (of_char (class_str ! i) :: nat) \<le> of_char c
                \<and> (of_char c :: nat) \<le> of_char (class_str ! (i + 2))
            then True
            else match_class_loop c class_str (i + 3))
         else
           (if class_str ! i = c then True
            else match_class_loop c class_str (i + 1)))
      else False)"
  by pat_completeness auto
termination
  by (relation "measure (\<lambda>(c, class_str, i). length class_str - i)") auto

declare match_class_loop.simps [simp del]

definition match_class :: "char \<Rightarrow> string \<Rightarrow> bool \<Rightarrow> bool" where
  "match_class c class_str negated =
     (let matched = match_class_loop c class_str 0
      in if negated then \<not> matched else matched)"

subsection \<open>Pattern parsing\<close>

function scan_class :: "string \<Rightarrow> nat \<Rightarrow> nat" where
  "scan_class pat p =
     (if p < length pat \<and> pat ! p \<noteq> CHR '']'' then scan_class pat (p + 1) else p)"
  by pat_completeness auto
termination
  by (relation "measure (\<lambda>(pat, p). length pat - p)") auto

declare scan_class.simps [simp del]

definition parse_single_atom :: "string \<Rightarrow> error + (atom \<times> nat \<times> bool)" where
  "parse_single_atom pat =
     (if pat = [] then Inl IndexError
      else if pat ! 0 = bs then
        (if 1 \<ge> length pat then
           Inl (RuntimeError ''Incomplete escape sequence in pattern'')
         else
           (let esc = pat ! 1
            in if is_digit esc then
                 (case int_of_char esc of
                    Inl e \<Rightarrow> Inl e
                  | Inr n \<Rightarrow> Inr (Backreference n, 2, False))
               else if esc \<in> set ''dw'' then Inr (Escape esc, 2, False)
               else Inr (Literal esc, 2, False)))
      else if pat ! 0 = CHR ''['' then
        (let negated = (1 < length pat \<and> pat ! 1 = CHR ''^'');
             start = (if negated then 2 else 1);
             p = scan_class pat start
         in if p \<ge> length pat then
              Inl (RuntimeError (''Pattern missing closing bracket '' @ [quote, CHR '']'', quote]))
            else Inr (Class (take (p - start) (drop start pat)), p + 1, negated))
      else if pat ! 0 = CHR ''.'' then Inr (Wildcard, 1, False)
      else Inr (Literal (pat ! 0), 1, False))"

function find_matching_paren_loop :: "string \<Rightarrow> nat \<Rightarrow> int \<Rightarrow> error + nat" where
  "find_matching_paren_loop pat i open_parens =
     (if i < length pat then
        (let open_parens' =
               (if pat ! i = CHR ''('' then open_parens + 1
                else if pat ! i = CHR '')'' then open_parens - 1
                else open_parens)
         in if open_parens' = 0 then Inr i
            else find_matching_paren_loop pat (i + 1) open_parens')
      else Inl (RuntimeError (''Pattern missing closing parenthesis '' @ [quote, CHR '')'', quote])))"
  by pat_completeness auto
termination
  by (relation "measure (\<lambda>(pat, i, open_parens). length pat - i)") auto

declare find_matching_paren_loop.simps [simp del]

definition find_matching_paren :: "string \<Rightarrow> nat \<Rightarrow> error + nat" where
  "find_matching_paren pat start_index = find_matching_paren_loop pat (start_index + 1) 1"

function split_alternatives_loop ::
  "string \<Rightarrow> nat \<Rightarrow> int \<Rightarrow> nat \<Rightarrow> string list \<Rightarrow> string list" where
  "split_alternatives_loop group_content i paren_level current_alternative_start alternatives =
     (if i < length group_content then
        (let ch = group_content ! i
         in if ch = CHR ''('' then
              split_alternatives_loop group_content (i + 1) (paren_level + 1)
                current_alternative_start alternatives
            else if ch = CHR '')'' then
              split_alternatives_loop group_content (i + 1) (paren_level - 1)
                current_alternative_start alternatives
            else if ch = CHR ''|'' \<and> paren_level = 0 then
              split_alternatives_loop group_content (i + 1) paren_level (i + 1)
                (alternatives
                 @ [take (i - current_alternative_start)
                      (drop current_alternative_start group_content)])
            else
              split_alternatives_loop group_content (i + 1) paren_level
                current_alternative_start alternatives)
      else alternatives @ [drop current_alternative_start group_content])"
  by pat_completeness auto
termination
  by (relation "measure (\<lambda>(group_content, i, paren_level, start, alternatives).
        length group_content - i)") auto

declare split_alternatives_loop.simps [simp del]

definition split_alternatives :: "string \<Rightarrow> string list" where
  "split_alternatives group_content = split_alternatives_loop group_content 0 0 0 []"

definition parse_expression :: "string \<Rightarrow> error + (atom \<times> nat \<times> bool)" where
  "parse_expression pat =
     (if take 1 pat = ''('' then
        (case find_matching_paren pat 0 of
           Inl e \<Rightarrow> Inl e
         | Inr end_paren_idx \<Rightarrow>
             (let group_content = take (end_paren_idx - 1) (drop 1 pat);
                  alternatives = split_alternatives group_content
              in Inr (Group alternatives, end_paren_idx + 1, False)))
      else parse_single_atom pat)"

text \<open>
  \<open>get_match_fn\<close> returns \<open>None\<close> for the kinds of expression that have no character test.
\<close>

definition get_match_fn :: "atom \<Rightarrow> bool \<Rightarrow> (char \<Rightarrow> bool) option" where
  "get_match_fn a negated =
     (case a of
        Escape e \<Rightarrow>
          (if e = CHR ''d'' then Some is_digit
           else if e = CHR ''w'' then Some (\<lambda>c. is_alpha c \<or> is_digit c \<or> is_underscore c)
           else None)
      | Literal ch \<Rightarrow> Some (\<lambda>c. c = ch)
      | Class class_str \<Rightarrow> Some (\<lambda>c. match_class c class_str negated)
      | Wildcard \<Rightarrow> Some (\<lambda>c. True)
      | _ \<Rightarrow> None)"

subsection \<open>The recursive matcher\<close>

type_synonym 'r consumer = "nat \<Rightarrow> nat \<Rightarrow> captures \<Rightarrow> 'r outcome"

type_synonym 'r matcher = "string \<Rightarrow> string \<Rightarrow> nat \<Rightarrow> 'r consumer \<Rightarrow> captures \<Rightarrow> 'r outcome"

text \<open>
  The \<open>while\<close> loop that extends a run of matching characters, from \<open>reps\<close> on.
\<close>

function count_reps :: "(char \<Rightarrow> bool) \<Rightarrow> string \<Rightarrow> nat \<Rightarrow> nat" where
  "count_reps match_fn input_line reps =
     (if reps < length input_line \<and> match_fn (input_line ! reps)
      then count_reps match_fn input_line (reps + 1)
      else reps)"
  by pat_completeness auto
termination
  by (relation "measure (\<lambda>(match_fn, input_line, reps). length input_line - reps)") auto

declare count_reps.simps [simp del]

text \<open>
  The closure \<open>match_group_content_once\<close> of \<open>match_inner\<close>. Its free variables
  \<open>alternatives\<close> and \<open>this_group_num\<close> are arguments here, and so is the recursive
  matcher \<open>self.match_inner\<close>. The table is copied before each alternative
  (\<open>captures_before_alt\<close>) and put back when the alternative is exhausted.
\<close>

definition match_group_content_once ::
  "'r matcher \<Rightarrow> string list \<Rightarrow> nat \<Rightarrow> string \<Rightarrow> nat \<Rightarrow> 'r consumer \<Rightarrow> captures \<Rightarrow> 'r outcome" where
  "match_group_content_once match_inner_rec alternatives this_group_num inp grp_counter yield s =
     for_each alternatives
       (\<lambda>alt s0.
          let captures_before_alt = s0
          in case match_inner_rec inp alt grp_counter
                    (\<lambda>alt_len alt_counter s1.
                       case py_setitem s1 (int this_group_num - 1) (Some (take alt_len inp)) of
                         Inl e \<Rightarrow> Raise e s1
                       | Inr s2 \<Rightarrow> yield alt_len alt_counter s2)
                    s0 of
               Cont s3 \<Rightarrow> Cont captures_before_alt
             | r \<Rightarrow> r)
       s"

text \<open>
  The closure \<open>match_plus_group\<close>, which calls itself; \<open>once\<close> is the closure above.
\<close>

primrec match_plus_group ::
  "nat \<Rightarrow> (string \<Rightarrow> nat \<Rightarrow> 'r consumer \<Rightarrow> captures \<Rightarrow> 'r outcome) \<Rightarrow> string \<Rightarrow> nat
     \<Rightarrow> 'r consumer \<Rightarrow> captures \<Rightarrow> 'r outcome" where
  "match_plus_group 0 once inp grp_counter yield s = OutOfFuel"
| "match_plus_group (Suc fuel) once inp grp_counter yield s =
     once inp grp_counter
       (\<lambda>one_len one_counter s1.
          let captures_after_one = s1
          in case match_plus_group fuel once (drop one_len inp) grp_counter
                    (\<lambda>rest_plus_len rest_plus_counter.
                       yield (one_len + rest_plus_len) rest_plus_counter)
                    s1 of
               Cont s2 \<Rightarrow> yield one_len one_counter captures_after_one
             | r \<Rightarrow> r)
       s"

primrec match_inner :: "nat \<Rightarrow> string \<Rightarrow> string \<Rightarrow> nat \<Rightarrow> 'r consumer \<Rightarrow> captures \<Rightarrow> 'r outcome" where
  "match_inner 0 input_line pat group_counter yield s = OutOfFuel"
| "match_inner (Suc fuel) input_line pat group_counter yield s =
     (if pat = [] then yield 0 group_counter s
      else
        case parse_expression pat of
          Inl e \<Rightarrow> Raise e s
        | Inr (expr, expr_len, negated) \<Rightarrow>
           (let quantifier =
                  (if expr_len < length pat \<and> pat ! expr_len \<in> set ''+?*''
                   then Some (pat ! expr_len) else None);
                rest_of_pattern = drop (expr_len + (if quantifier \<noteq> None then 1 else 0)) pat
            in case expr of
                 Group alternatives \<Rightarrow>
                   (let this_group_num = group_counter + 1;
                        once = match_group_content_once (match_inner fuel) alternatives this_group_num
                    in if quantifier = None then
                         once input_line this_group_num
                           (\<lambda>match_len next_counter.
                              match_inner fuel (drop match_len input_line) rest_of_pattern next_counter
                                (\<lambda>rest_len rest_counter. yield (match_len + rest_len) rest_counter))
                           s
                       else if quantifier = Some (CHR ''?'') then
                         (case once input_line this_group_num
                                 (\<lambda>match_len next_counter.
                                    match_inner fuel (drop match_len input_line) rest_of_pattern
                                      next_counter
                                      (\<lambda>rest_len rest_counter. yield (match_len + rest_len) rest_counter))
                                 s of
                            Cont s' \<Rightarrow> match_inner fuel input_line rest_of_pattern group_counter yield s'
                          | r \<Rightarrow> r)
                       else if quantifier = Some (CHR ''+'') then
                         match_plus_group fuel once input_line this_group_num
                           (\<lambda>reps_len reps_counter.
                              match_inner fuel (drop reps_len input_line) rest_of_pattern reps_counter
                                (\<lambda>rest_len rest_counter. yield (reps_len + rest_len) rest_counter))
                           s
                       else Cont s)
               | Backreference ref_num \<Rightarrow>
                   (if length s < ref_num then Cont s
                    else
                      case py_getitem s (int ref_num - 1) of
                        Inl e \<Rightarrow> Raise e s
                      | Inr None \<Rightarrow> Cont s
                      | Inr (Some captured_text) \<Rightarrow>
                          (if take (length captured_text) input_line = captured_text then
                             (let cap_len = length captured_text
                              in match_inner fuel (drop cap_len input_line) rest_of_pattern group_counter
                                   (\<lambda>rest_len rest_counter. yield (cap_len + rest_len) rest_counter) s)
                           else Cont s))
               | _ \<Rightarrow>
                   (case get_match_fn expr negated of
                      None \<Rightarrow> Raise TypeError s
                    | Some match_fn \<Rightarrow>
                        if quantifier = None then
                          (if input_line \<noteq> [] \<and> match_fn (input_line ! 0) then
                             match_inner fuel (drop 1 input_line) rest_of_pattern group_counter
                               (\<lambda>rest_len rest_counter. yield (1 + rest_len) rest_counter) s
                           else Cont s)
                        else if quantifier = Some (CHR ''+'') then
                          (if input_line = [] \<or> \<not> match_fn (input_line ! 0) then Cont s
                           else
                             (let reps = count_reps match_fn input_line 1
                              in for_each (rev [1..<Suc reps])
                                   (\<lambda>curr_reps.
                                      match_inner fuel (drop curr_reps input_line) rest_of_pattern
                                        group_counter
                                        (\<lambda>rest_len rest_counter.
                                           yield (curr_reps + rest_len) rest_counter))
                                   s))
                        else if quantifier = Some (CHR ''?'') then
                          (case (if input_line \<noteq> [] \<and> match_fn (input_line ! 0) then
                                   match_inner fuel (drop 1 input_line) rest_of_pattern group_counter
                                     (\<lambda>rest_len rest_counter. yield (1 + rest_len) rest_counter) s
                                 else Cont s) of
                             Cont s' \<Rightarrow> match_inner fuel input_line rest_of_pattern group_counter yield s'
                           | r \<Rightarrow> r)
                        else
                          (let reps = count_reps match_fn input_line 0
                           in for_each (rev [0..<Suc reps])
                                (\<lambda>curr_reps.
                                   match_inner fuel (drop curr_reps input_line) rest_of_pattern
                                     group_counter
                                     (\<lambda>rest_len rest_counter.
                                        yield (curr_reps + rest_len) rest_counter))
                                s))))"

subsection \<open>The driver\<close>

definition strip_anchors :: "string \<Rightarrow> bool \<times> bool \<times> string" where
  "strip_anchors pat =
     (let start_anchored = (take 1 pat = ''^'');
          end_anchored = (pat \<noteq> [] \<and> last pat = CHR ''$'');
          inner = drop (if start_anchored then 1 else 0)
                    (if end_anchored then take (length pat - 1) pat else pat)
      in (start_anchored, end_anchored, inner))"

text \<open>
  \<open>any(... for poss in gen)\<close> stops at the first result of the wanted length;
  \<open>next(gen)\<close> stops at the first result.
\<close>

definition has_match :: "nat \<Rightarrow> RegexEngine \<Rightarrow> string \<Rightarrow> string \<Rightarrow> bool result" where
  "has_match fuel self input_line pat =
     (case strip_anchors pat of (start_anchored, end_anchored, inner) \<Rightarrow>
        (let captures0 = replicate (num_capture_groups self) None;
             explored =
               (if start_anchored then
                  match_inner fuel input_line inner 0
                    (if end_anchored
                     then (\<lambda>len counter s. if len = length input_line then Stop () s else Cont s)
                     else (\<lambda>len counter s. Stop () s))
                    captures0
                else
                  for_each [0..<length input_line + 1]
                    (\<lambda>i. match_inner fuel (drop i input_line) inner 0
                            (if end_anchored
                             then (\<lambda>len counter s.
                                     if i + len = length input_line then Stop () s else Cont s)
                             else (\<lambda>len counter s. Stop () s)))
                    captures0)
         in case explored of
              OutOfFuel \<Rightarrow> Diverges
            | Raise e s \<Rightarrow> Raises e (self\<lparr>captures := s\<rparr>)
            | Stop u s \<Rightarrow> Returns True (self\<lparr>captures := s\<rparr>)
            | Cont s \<Rightarrow> Returns False (self\<lparr>captures := s\<rparr>)))"

definition match_pattern :: "nat \<Rightarrow> RegexEngine \<Rightarrow> string \<Rightarrow> bool result" where
  "match_pattern fuel self input_line = has_match fuel self input_line (pattern self)"

declare match_inner.simps(2) [simp del]

subsection \<open>Calls in sequence on one engine\<close>

text \<open>
  A caller that keeps one engine and calls \<open>match_pattern\<close> on it again and again, each
  call with its own fuel; a call that raises leaves the engine as the exception found it.
\<close>

fun run_calls :: "RegexEngine \<Rightarrow> (nat \<times> string) list \<Rightarrow> RegexEngine option" where
  "run_calls self [] = Some self"
| "run_calls self ((fuel, input_line) # calls) =
     (case match_pattern fuel self input_line of
        Diverges \<Rightarrow> None
      | Raises e self' \<Rightarrow> run_calls self' calls
      | Returns b self' \<Rightarrow> run_calls self' calls)"

subsection \<open>Malformed expressions, in the words of the specification\<close>




subsection \<open>Quantifier and remainder of the pattern\<close>

text \<open>
  The values of the local variables \<open>quantifier\<close> and \<open>rest_of_pattern\<close> of
  \<open>match_inner\<close>, as functions of the pattern and the length of its first expression.
\<close>

definition quantifier_of :: "string \<Rightarrow> nat \<Rightarrow> char option" where
  "quantifier_of pat expr_len =
     (if expr_len < length pat \<and> pat ! expr_len \<in> set ''+?*'' then Some (pat ! expr_len) else None)"

definition rest_after :: "string \<Rightarrow> nat \<Rightarrow> string" where
  "rest_after pat expr_len =
     drop (expr_len + (if quantifier_of pat expr_len \<noteq> None then 1 else 0)) pat"

subsection \<open>Outcomes and consumers\<close>

text \<open>
  A generator is exhausted when it hands the table back without a \<open>Stop\<close> or an
  exception. A consumer is restoring when, each time it asks for the next result, the
  table is as it received it.
\<close>

definition restoring :: "'r consumer \<Rightarrow> bool" where
  "restoring k = (\<forall>l c s s'. k l c s = Cont s' \<longrightarrow> s' = s)"

definition exhausted :: "'r outcome \<Rightarrow> bool" where
  "exhausted r = (case r of Cont s \<Rightarrow> True | _ \<Rightarrow> False)"

subsection \<open>Group-free prefixes of a pattern\<close>

text \<open>
  \<open>plain_prefix pat\<close>: reading \<open>pat\<close> as \<open>match_inner\<close> does, one expression with its
  quantifier after the other, every expression parses and none is a group.
  \<open>raise_at_result e r\<close> is the outcome \<open>r\<close> of a generator whose consumer takes the first
  result, when that result leads into code that raises \<open>e\<close> instead.
\<close>

function plain_prefix :: "string \<Rightarrow> bool" where
  "plain_prefix pat =
     (if pat = [] then True
      else case parse_expression pat of
             Inl e \<Rightarrow> False
           | Inr (a, expr_len, negated) \<Rightarrow>
               (case a of
                  Group alternatives \<Rightarrow> False
                | _ \<Rightarrow> plain_prefix (rest_after pat expr_len)))"
  by pat_completeness auto
termination
proof -
  have pos: "0 < l" if "parse_expression pat = Inr (a, l, n)" for pat a l n
    using that
    by (auto simp add: parse_expression_def parse_single_atom_def Let_def
        split: if_splits sum.splits)
  show ?thesis
    by (relation "measure length") (auto simp add: rest_after_def dest: pos)
qed

declare plain_prefix.simps [simp del]

definition raise_at_result :: "error \<Rightarrow> unit outcome \<Rightarrow> 'r outcome" where
  "raise_at_result e r =
     (case r of
        OutOfFuel \<Rightarrow> OutOfFuel
      | Raise x t \<Rightarrow> Raise x t
      | Stop u t \<Rightarrow> Raise e t
      | Cont t \<Rightarrow> Cont t)"

subsection \<open>Patterns that end with an atom, and outcomes that stop earlier\<close>

text \<open>
  \<open>ends_with_atom pat\<close>: reading \<open>pat\<close> as \<open>match_inner\<close> does, every expression parses,
  and the last one is an atom with a character test that has no quantifier after it, so
  that a quantifier character written after \<open>pat\<close> becomes the quantifier of that atom.
  \<open>stops_or_same r1 r2\<close>: the second exploration found a result and stopped, or it ended as
  the first did.
\<close>

function ends_with_atom :: "string \<Rightarrow> bool" where
  "ends_with_atom pat =
     (if pat = [] then False
      else case parse_expression pat of
             Inl e \<Rightarrow> False
           | Inr (a, expr_len, negated) \<Rightarrow>
               if expr_len = length pat then
                 (case get_match_fn a negated of None \<Rightarrow> False | Some match_fn \<Rightarrow> True)
               else ends_with_atom (rest_after pat expr_len))"
  by pat_completeness auto
termination
proof -
  have pos: "0 < l" if "parse_expression pat = Inr (a, l, n)" for pat a l n
    using that
    by (auto simp add: parse_expression_def parse_single_atom_def Let_def
        split: if_splits sum.splits)
  show ?thesis
    by (relation "measure length") (auto simp add: rest_after_def dest: pos)
qed

declare ends_with_atom.simps [simp del]

definition stops_or_same :: "'r outcome \<Rightarrow> 'r outcome \<Rightarrow> bool" where
  "stops_or_same r1 r2 = (case r2 of Stop u t \<Rightarrow> True | _ \<Rightarrow> r1 = r2)"

section \<open>Properties\<close>

subsection \<open>Loops and dispatch\<close>

lemma for_each_append:
  "for_each (xs @ ys) body s =
     (case for_each xs body s of Cont s' \<Rightarrow> for_each ys body s' | r \<Rightarrow> r)"
  by (induction xs arbitrary: s) (auto split: outcome.splits)

lemma for_each_upt_last:
  assumes "\<And>i. i < m \<Longrightarrow> body i s = Cont s"
  shows "for_each [0..<Suc m] body s = (case body m s of Cont s' \<Rightarrow> Cont s' | r \<Rightarrow> r)"
  using assms
proof (induction m)
  case 0
  show ?case by (simp split: outcome.splits)
next
  case (Suc m)
  have "for_each [0..<Suc m] body s = Cont s"
    using Suc by (simp split: outcome.splits)
  then show ?case
    using for_each_append [of "[0..<Suc m]" "[Suc m]" body s]
    by (simp split: outcome.splits)
qed

lemma for_each_upt_first:
  "for_each [0..<Suc m] body s =
     (case body 0 s of Cont s' \<Rightarrow> for_each [Suc 0..<Suc m] body s' | r \<Rightarrow> r)"
proof -
  have "[0..<Suc m] = 0 # [Suc 0..<Suc m]"
    by (rule upt_conv_Cons) simp
  then show ?thesis by (simp del: upt_Suc)
qed

lemma match_inner_empty: "match_inner (Suc n) inp [] gc k s = k 0 gc s"
  by (simp add: match_inner.simps(2))

lemma match_inner_parse_error:
  "pat \<noteq> [] \<Longrightarrow> parse_expression pat = Inl e \<Longrightarrow> match_inner (Suc n) inp pat gc k s = Raise e s"
  by (simp add: match_inner.simps(2))

lemma strip_caret_dollar: "strip_anchors ''^$'' = (True, True, [])"
  by (simp add: strip_anchors_def)

lemma strip_caret: "strip_anchors ''^'' = (True, False, [])"
  by (simp add: strip_anchors_def)

lemma strip_dollar: "strip_anchors ''$'' = (False, True, [])"
  by (simp add: strip_anchors_def)

subsection \<open>Backreferences\<close>

lemma parse_backref_zero:
  "parse_expression (bs # CHR ''0'' # r) = Inr (Backreference 0, 2, False)"
  by (simp add: parse_expression_def parse_single_atom_def is_digit_def int_of_char_def bs_def)

lemma match_inner_backref_zero_empty_table:
  "match_inner (Suc n) inp (bs # CHR ''0'' # r) gc k [] = Raise IndexError []"
  by (simp add: match_inner.simps(2) parse_backref_zero py_getitem_def py_index_def)

lemma parse_backref_digit:
  assumes "int_of_char c = Inr d"
  shows "parse_expression (bs # c # tail) = Inr (Backreference d, 2, False)"
proof -
  have "is_digit c"
    using assms by (auto simp add: int_of_char_def is_digit_def Let_def split: if_splits)
  moreover have "bs \<noteq> CHR ''(''" by (simp add: bs_def)
  ultimately show ?thesis
    using assms by (simp add: parse_expression_def parse_single_atom_def Let_def)
qed

text \<open>
  Claim C6. A backreference \<open>\d\<close> with \<open>1 \<le> d \<le> 9\<close>: when slot \<open>d\<close> lies beyond the table
  or is unset, the path ends with no result and no error; when it holds a text, the
  results are the length of the text plus each result of the remaining pattern on the
  input after the text, if the input begins with the text, and none otherwise.
\<close>

theorem backreference_semantics:
  assumes "int_of_char c = Inr d" "1 \<le> d"
  shows "match_inner (Suc n) inp (bs # c # tail) gc k s =
           (if length s < d then Cont s
            else case s ! (d - 1) of
                   None \<Rightarrow> Cont s
                 | Some captured_text \<Rightarrow>
                     if take (length captured_text) inp = captured_text then
                       match_inner n (drop (length captured_text) inp)
                         (if tail \<noteq> [] \<and> hd tail \<in> set ''+?*'' then tl tail else tail) gc
                         (\<lambda>r c. k (length captured_text + r) c) s
                     else Cont s)"
proof -
  have g: "py_getitem s (int d - 1) = Inr (s ! (d - 1))" if "\<not> length s < d"
    using that assms by (auto simp add: py_getitem_def py_index_def nat_diff_distrib')
  have r: "drop (2 + (if 2 < length (bs # c # tail) \<and> (bs # c # tail) ! 2 \<in> set ''+?*''
                      then 1 else 0))
             (bs # c # tail)
           = (if tail \<noteq> [] \<and> hd tail \<in> set ''+?*'' then tl tail else tail)"
    by (cases tail) auto
  show ?thesis
    using r
    by (cases tail)
       (auto simp add: match_inner.simps(2) parse_backref_digit [OF assms(1)] g Let_def
          split: option.splits)
qed

theorem backreference_semantics_witness:
  "match_inner 2 ''abab'' (bs # ''1'') 0 (\<lambda>l c s. Stop l s) [Some ''ab''] = Stop 2 [Some ''ab'']"
proof -
  have d: "int_of_char (CHR ''1'') = Inr 1" "(1::nat) \<le> 1"
    by (simp_all add: int_of_char_def)
  show ?thesis
    using backreference_semantics [OF d, of 1 "''abab''" "[]" 0 "\<lambda>l c s. Stop l s" "[Some ''ab'']"]
    by (simp add: match_inner_empty numeral_2_eq_2)
qed

subsection \<open>Independence of earlier calls\<close>

lemma match_pattern_captures_irrelevant:
  "match_pattern n (self\<lparr>captures := c\<rparr>) s = match_pattern n self s"
  by (simp add: match_pattern_def has_match_def Let_def split: prod.split outcome.split)

lemma match_pattern_engine:
  "match_pattern n self s = Returns b self' \<or> match_pattern n self s = Raises e self'
     \<Longrightarrow> \<exists>c. self' = self\<lparr>captures := c\<rparr>"
  by (auto simp add: match_pattern_def has_match_def Let_def split: prod.splits outcome.splits)

lemma run_calls_engine:
  "run_calls self calls = Some self' \<Longrightarrow> \<exists>c. self' = self\<lparr>captures := c\<rparr>"
proof (induction calls arbitrary: self)
  case Nil
  then have "self' = self\<lparr>captures := captures self\<rparr>" by simp
  then show ?case by blast
next
  case (Cons call calls)
  obtain fuel input_line where call: "call = (fuel, input_line)" by (cases call)
  show ?case
  proof (cases "match_pattern fuel self input_line")
    case Diverges
    with Cons.prems call show ?thesis by simp
  next
    case (Raises e self1)
    then obtain c1 where "self1 = self\<lparr>captures := c1\<rparr>"
      using match_pattern_engine by blast
    moreover from Cons.prems call Raises have "run_calls self1 calls = Some self'" by simp
    ultimately show ?thesis using Cons.IH [of self1] by auto
  next
    case (Returns b self1)
    then obtain c1 where "self1 = self\<lparr>captures := c1\<rparr>"
      using match_pattern_engine by blast
    moreover from Cons.prems call Returns have "run_calls self1 calls = Some self'" by simp
    ultimately show ?thesis using Cons.IH [of self1] by auto
  qed
qed

text \<open>
  Claim C8. \<open>match_pattern\<close> is a function of the engine and the line alone, and its
  result on an engine that has served any earlier calls is its result on the engine as
  it was before them: \<open>has_match\<close> allocates the table anew.
\<close>

theorem match_pattern_order_independent:
  assumes "run_calls self calls = Some self'"
  shows "match_pattern n self' s = match_pattern n self s"
proof -
  obtain c where "self' = self\<lparr>captures := c\<rparr>"
    using run_calls_engine [OF assms] by blast
  then show ?thesis by (simp add: match_pattern_captures_irrelevant)
qed

theorem match_pattern_order_independent_witness:
  "run_calls (init ''(a)'') [(5, ''a'')] = Some ((init ''(a)'')\<lparr>captures := [Some ''a'']\<rparr>)
   \<and> match_pattern 5 ((init ''(a)'')\<lparr>captures := [Some ''a'']\<rparr>) ''b''
       = match_pattern 5 (init ''(a)'') ''b''"
proof -
  have h: "run_calls (init ''(a)'') [(5, ''a'')] = Some ((init ''(a)'')\<lparr>captures := [Some ''a'']\<rparr>)"
    by code_simp
  show ?thesis
    using h match_pattern_order_independent [OF h, of 5 "''b''"] by simp
qed

subsection \<open>Bare anchors\<close>

text \<open>
  Claim C7. The pattern \<open>^$\<close> matches the empty line only; the pattern \<open>^\<close> and the
  pattern \<open>$\<close> match every line.
\<close>

theorem bare_anchors:
  "match_pattern (Suc n) (init ''^$'') s = Returns (s = []) (init ''^$'')
   \<and> match_pattern (Suc n) (init ''^'') s = Returns True (init ''^'')
   \<and> match_pattern (Suc n) (init ''$'') s = Returns True (init ''$'')"
proof (intro conjI)
  show "match_pattern (Suc n) (init ''^$'') s = Returns (s = []) (init ''^$'')"
    by (simp add: match_pattern_def has_match_def init_def strip_caret_dollar match_inner_empty bs_def)
  show "match_pattern (Suc n) (init ''^'') s = Returns True (init ''^'')"
    by (simp add: match_pattern_def has_match_def init_def strip_caret match_inner_empty bs_def)
  have "for_each [0..<Suc (length s)]
          (\<lambda>i. match_inner (Suc n) (drop i s) [] 0
                  (\<lambda>len counter s'. if i + len = length s then Stop () s' else Cont s')) []
        = Stop () []"
    by (subst for_each_upt_last) (simp_all add: match_inner_empty)
  then show "match_pattern (Suc n) (init ''$'') s = Returns True (init ''$'')"
    by (simp add: match_pattern_def has_match_def init_def strip_dollar bs_def)
qed

theorem bare_anchors_witness:
  "match_pattern 1 (init ''^$'') ''ab'' = Returns False (init ''^$'')
   \<and> match_pattern 1 (init ''^'') ''ab'' = Returns True (init ''^'')
   \<and> match_pattern 1 (init ''$'') ''ab'' = Returns True (init ''$'')"
  using bare_anchors [of 0 "''ab''"] by simp

subsection \<open>Malformed patterns\<close>




subsection \<open>A quantifier after a backreference\<close>

lemma parse_escape_digit:
  "is_digit d \<Longrightarrow> parse_expression (bs # d # t) =
     (case int_of_char d of Inl e \<Rightarrow> Inl e | Inr m \<Rightarrow> Inr (Backreference m, 2, False))"
  by (simp add: parse_expression_def parse_single_atom_def bs_def)

lemma match_inner_backreference:
  assumes "pat \<noteq> []" and "parse_expression pat = Inr (Backreference ref_num, expr_len, negated)"
  shows "match_inner (Suc n) inp pat gc k s =
           (if length s < ref_num then Cont s
            else case py_getitem s (int ref_num - 1) of
                   Inl e \<Rightarrow> Raise e s
                 | Inr None \<Rightarrow> Cont s
                 | Inr (Some captured_text) \<Rightarrow>
                     if take (length captured_text) inp = captured_text then
                       match_inner n (drop (length captured_text) inp) (rest_after pat expr_len) gc
                         (\<lambda>r c. k (length captured_text + r) c) s
                     else Cont s)"
  using assms
  by (auto simp add: match_inner.simps(2) quantifier_of_def rest_after_def Let_def
      split: sum.split option.split)

text \<open>
  Claim C10, as amended. A quantifier character right after a backreference is dropped
  with the backreference and never consulted, provided the character after it is not a
  quantifier character itself: the matcher behaves on the pattern as on the pattern
  without that character, for every input, table, consumer and fuel.
\<close>

theorem backreference_quantifier_ignored:
  assumes "is_digit d" and "q \<in> set ''+?*''" and "tail = [] \<or> hd tail \<notin> set ''+?*''"
  shows "match_inner n inp (bs # d # q # tail) gc k s = match_inner n inp (bs # d # tail) gc k s"
proof (cases n)
  case 0
  then show ?thesis by simp
next
  case (Suc m)
  have q: "rest_after (bs # d # q # tail) 2 = tail"
    using assms(2) by (simp add: rest_after_def quantifier_of_def)
  have nq: "rest_after (bs # d # tail) 2 = tail"
    using assms(3) by (cases tail) (auto simp add: rest_after_def quantifier_of_def)
  show ?thesis
  proof (cases "int_of_char d")
    case (Inl e)
    then show ?thesis
      using assms(1) Suc by (simp add: match_inner_parse_error parse_escape_digit)
  next
    case (Inr ref_num)
    have p: "parse_expression (bs # d # t) = Inr (Backreference ref_num, 2, False)" for t
      using assms(1) Inr by (simp add: parse_escape_digit)
    show ?thesis
      unfolding Suc
      by (simp only: match_inner_backreference [OF _ p] q nq list.distinct not_False_eq_True)
  qed
qed

theorem backreference_quantifier_ignored_witness:
  "match_inner 3 ''aa'' (bs # ''1+'') 1 (\<lambda>l c s. Stop l s) [Some ''a'']
     = match_inner 3 ''aa'' (bs # ''1'') 1 (\<lambda>l c s. Stop l s) [Some ''a'']"
proof -
  have "is_digit (CHR ''1'')" by (simp add: is_digit_def)
  moreover have "CHR ''+'' \<in> set ''+?*''" by simp
  moreover have "[] = [] \<or> hd [] \<notin> set ''+?*''" by simp
  ultimately show ?thesis
    by (rule backreference_quantifier_ignored)
qed


theorem backreference_quantifier_counterexample:
  "match_pattern 4 (init (''(a)'' @ bs # ''1+?'')) ''aa''
     = Returns False ((init (''(a)'' @ bs # ''1+?''))\<lparr>captures := [None]\<rparr>)
   \<and> match_pattern 4 (init (''(a)'' @ bs # ''1?'')) ''aa''
     = Returns True ((init (''(a)'' @ bs # ''1?''))\<lparr>captures := [Some ''a'']\<rparr>)"
  by code_simp

subsection \<open>An empty alternative under plus\<close>

lemma parse_a_or_empty_plus: "parse_expression ''(a|)+'' = Inr (Group [''a'', ''''], 4, False)"
  by code_simp

lemma parse_a: "parse_expression ''a'' = Inr (Literal (CHR ''a''), 1, False)"
  by code_simp

lemma match_inner_a_out_of_fuel:
  assumes "\<And>l c s1. length s1 = length s \<Longrightarrow> k l c s1 = OutOfFuel"
  shows "match_inner n inp ''a'' g k s = OutOfFuel \<or> match_inner n inp ''a'' g k s = Cont s"
proof (cases n)
  case 0
  then show ?thesis by simp
next
  case n: (Suc m)
  show ?thesis
  proof (cases m)
    case 0
    then show ?thesis
      unfolding n by (simp add: match_inner.simps(2) parse_a get_match_fn_def)
  next
    case (Suc m')
    show ?thesis
      unfolding n Suc
      by (simp add: match_inner.simps(2) [of "Suc m'"] parse_a get_match_fn_def
          match_inner_empty assms)
  qed
qed

lemma match_inner_empty_out_of_fuel:
  assumes "\<And>l c s1. length s1 = length s \<Longrightarrow> k l c s1 = OutOfFuel"
  shows "match_inner n inp [] g k s = OutOfFuel"
  using assms by (cases n) (simp_all add: match_inner_empty)

lemma once_a_or_empty_out_of_fuel:
  assumes "\<And>l c s1. length s1 = length s \<Longrightarrow> k l c s1 = OutOfFuel"
    and "0 < gn" and "gn \<le> length s"
  shows "match_group_content_once (match_inner n) [''a'', ''''] gn inp g k s = OutOfFuel"
proof -
  let ?k = "\<lambda>alt_len alt_counter s1.
              case py_setitem s1 (int gn - 1) (Some (take alt_len inp)) of
                Inl e \<Rightarrow> Raise e s1
              | Inr s2 \<Rightarrow> k alt_len alt_counter s2"
  have k: "?k l c s1 = OutOfFuel" if "length s1 = length s" for l c s1
    using that assms by (auto simp add: py_setitem_def py_index_def)
  have e: "match_inner n inp [] g ?k s = OutOfFuel"
    by (rule match_inner_empty_out_of_fuel) (rule k)
  have "match_inner n inp ''a'' g ?k s = OutOfFuel \<or> match_inner n inp ''a'' g ?k s = Cont s"
    by (rule match_inner_a_out_of_fuel) (rule k)
  then show ?thesis
    using e by (auto simp add: match_group_content_once_def)
qed

lemma plus_a_or_empty_out_of_fuel:
  assumes "0 < gn"
  shows "gn \<le> length s \<Longrightarrow>
   match_plus_group m (match_group_content_once (match_inner n) [''a'', ''''] gn) inp g k s
     = OutOfFuel"
proof (induction m arbitrary: inp k s)
  case 0
  show ?case by simp
next
  case (Suc m)
  have "(let captures_after_one = s1
          in case match_plus_group m
                    (match_group_content_once (match_inner n) [''a'', ''''] gn) (drop l inp) g
                    (\<lambda>rest_plus_len rest_plus_counter. k (l + rest_plus_len) rest_plus_counter)
                    s1 of
               Cont s2 \<Rightarrow> k l c captures_after_one
             | r \<Rightarrow> r) = OutOfFuel"
    if "length s1 = length s" for l c s1
  proof -
    from that Suc.prems have "gn \<le> length s1" by simp
    then show ?thesis by (simp add: Suc.IH)
  qed
  then show ?case
    unfolding match_plus_group.simps
    using assms Suc.prems by (intro once_a_or_empty_out_of_fuel) auto
qed

lemma match_inner_a_or_empty_plus:
  "g < length s \<Longrightarrow> match_inner n inp ''(a|)+'' g k s = OutOfFuel"
  by (cases n)
     (simp_all add: match_inner.simps(2) parse_a_or_empty_plus plus_a_or_empty_out_of_fuel)

text \<open>
  Claim C4. On the pattern \<open>(a|)+\<close> the empty alternative lets \<open>match_plus_group\<close> call
  itself on the same input for ever: whatever the line and the fuel, \<open>match_pattern\<close>
  does not return.
\<close>

theorem empty_alternative_plus_diverges:
  "match_pattern n (init ''(a|)+'') s = Diverges"
proof -
  have "strip_anchors ''(a|)+'' = (False, False, ''(a|)+'')"
    by (simp add: strip_anchors_def)
  then show ?thesis
    by (simp add: match_pattern_def has_match_def init_def bs_def for_each_upt_first
        match_inner_a_or_empty_plus del: upt_Suc)
qed

subsection \<open>Dispatch on the first expression\<close>

lemma match_inner_group:
  assumes "pat \<noteq> []" and "parse_expression pat = Inr (Group alternatives, expr_len, negated)"
  shows "match_inner (Suc n) inp pat gc k s =
           (let once = match_group_content_once (match_inner n) alternatives (gc + 1);
                tail = (\<lambda>l c. match_inner n (drop l inp) (rest_after pat expr_len) c
                                (\<lambda>r c'. k (l + r) c'))
            in case quantifier_of pat expr_len of
                 None \<Rightarrow> once inp (gc + 1) tail s
               | Some q \<Rightarrow>
                   if q = CHR ''?'' then
                     (case once inp (gc + 1) tail s of
                        Cont s' \<Rightarrow> match_inner n inp (rest_after pat expr_len) gc k s'
                      | r \<Rightarrow> r)
                   else if q = CHR ''+'' then match_plus_group n once inp (gc + 1) tail s
                   else Cont s)"
  using assms
  by (auto simp add: match_inner.simps(2) quantifier_of_def rest_after_def Let_def
      cong: outcome.case_cong)

lemma match_inner_atom:
  assumes "pat \<noteq> []" and "parse_expression pat = Inr (a, expr_len, negated)"
    and "get_match_fn a negated = Some match_fn"
  shows "match_inner (Suc n) inp pat gc k s =
           (let explore = (\<lambda>j. match_inner n (drop j inp) (rest_after pat expr_len) gc
                                  (\<lambda>r c. k (j + r) c))
            in case quantifier_of pat expr_len of
                 None \<Rightarrow> if inp \<noteq> [] \<and> match_fn (inp ! 0) then explore 1 s else Cont s
               | Some q \<Rightarrow>
                   if q = CHR ''+'' then
                     (if inp = [] \<or> \<not> match_fn (inp ! 0) then Cont s
                      else for_each (rev [1..<Suc (count_reps match_fn inp 1)]) explore s)
                   else if q = CHR ''?'' then
                     (case (if inp \<noteq> [] \<and> match_fn (inp ! 0) then explore 1 s else Cont s) of
                        Cont s' \<Rightarrow> explore 0 s'
                      | r \<Rightarrow> r)
                   else for_each (rev [0..<Suc (count_reps match_fn inp 0)]) explore s)"
proof -
  have a: "(\<forall>alts. a \<noteq> Group alts) \<and> (\<forall>r. a \<noteq> Backreference r)"
    using assms(3) by (auto simp add: get_match_fn_def)
  show ?thesis
    using assms a
    by (cases a)
       (auto simp add: match_inner.simps(2) quantifier_of_def rest_after_def Let_def
          simp del: upt_Suc cong: outcome.case_cong)
qed

lemma match_inner_no_match_fn:
  assumes "pat \<noteq> []" and "parse_expression pat = Inr (a, expr_len, negated)"
    and "get_match_fn a negated = None"
  shows "\<not> exhausted (match_inner (Suc n) inp pat gc k s)
         \<or> (\<exists>alts. a = Group alts) \<or> (\<exists>r. a = Backreference r)"
  using assms
  by (cases a) (auto simp add: match_inner.simps(2) Let_def exhausted_def)

lemma for_each_restoring:
  "for_each xs body s = Cont s' \<Longrightarrow>
   (\<And>x t t'. x \<in> set xs \<Longrightarrow> body x t = Cont t' \<Longrightarrow> t' = t) \<Longrightarrow> s' = s"
proof (induction xs arbitrary: s)
  case Nil
  then show ?case by simp
next
  case (Cons x xs)
  from Cons.prems(1) obtain s1 where b: "body x s = Cont s1" and f: "for_each xs body s1 = Cont s'"
    by (auto split: outcome.splits)
  have "s1 = s"
    using Cons.prems(2) [of x s s1] b by simp
  moreover have "s' = s1"
    using f by (rule Cons.IH) (rule Cons.prems(2), simp_all)
  ultimately show ?case by simp
qed

lemma once_restores:
  "match_group_content_once rec alternatives gn inp g k s = Cont s' \<Longrightarrow> s' = s"
  unfolding match_group_content_once_def
  by (erule for_each_restoring) (auto simp add: Let_def split: outcome.splits)

lemma plus_restores:
  assumes "\<And>inp g k s s'. once inp g k s = Cont s' \<Longrightarrow> s' = s"
  shows "match_plus_group m once inp g k s = Cont s' \<Longrightarrow> s' = s"
  using assms by (cases m) auto

lemma restoring_shift: "restoring k \<Longrightarrow> restoring (\<lambda>r c. k (j + r) c)"
  by (simp add: restoring_def)

lemma match_inner_restoring:
  "restoring k \<Longrightarrow> match_inner n inp pat gc k s = Cont s' \<Longrightarrow> s' = s"
proof (induction n arbitrary: inp pat gc k s s')
  case 0
  then show ?case by simp
next
  case (Suc n)
  note IH = Suc.IH
  have ex: "match_inner n (drop j inp) rest gc' (\<lambda>r c. k (j + r) c) t = Cont t' \<Longrightarrow> t' = t"
    for j rest gc' t t'
    using IH [OF restoring_shift [OF Suc.prems(1)]] .
  show ?case
  proof (cases "pat = []")
    case True
    with Suc.prems show ?thesis by (simp add: match_inner_empty restoring_def)
  next
    case False
    show ?thesis
    proof (cases "parse_expression pat")
      case (Inl e)
      with False Suc.prems show ?thesis by (simp add: match_inner_parse_error)
    next
      case (Inr triple)
      obtain a expr_len negated where p: "parse_expression pat = Inr (a, expr_len, negated)"
        using Inr by (cases triple) auto
      consider (grp) alternatives where "a = Group alternatives"
        | (bref) ref_num where "a = Backreference ref_num"
        | (nofn) "get_match_fn a negated = None" "\<forall>alts. a \<noteq> Group alts"
            "\<forall>r. a \<noteq> Backreference r"
        | (atom) match_fn where "get_match_fn a negated = Some match_fn"
        by (cases "get_match_fn a negated"; cases a) auto
      then show ?thesis
      proof cases
        case grp
        have pl: "match_plus_group m (match_group_content_once rec alts gn) i g k' t = Cont t'
                    \<Longrightarrow> t' = t" for m rec alts gn i g t t' and k' :: "'a consumer"
          by (erule plus_restores [rotated]) (rule once_restores)
        show ?thesis
          using Suc.prems(2)
          unfolding match_inner_group [OF False p [unfolded grp]] Let_def
          by (auto split: option.splits if_splits outcome.splits
              dest: once_restores pl IH [OF Suc.prems(1)])
      next
        case bref
        show ?thesis
          using Suc.prems(2)
          unfolding match_inner_backreference [OF False p [unfolded bref]]
          by (auto split: option.splits if_splits sum.splits dest: ex)
      next
        case nofn
        then show ?thesis
          using match_inner_no_match_fn [OF False p nofn(1), of n inp gc k s] Suc.prems(2)
          by (auto simp add: exhausted_def)
      next
        case atom
        have fe: "for_each js
                    (\<lambda>j. match_inner n (drop j inp) (rest_after pat expr_len) gc
                           (\<lambda>r c. k (j + r) c)) t = Cont t' \<Longrightarrow> t' = t" for js t t'
          by (erule for_each_restoring) (rule ex)
        have rs: "restoring (\<lambda>r c. k (Suc r) c)"
          using Suc.prems(1) by (simp add: restoring_def)
        show ?thesis
          using Suc.prems(2)
          unfolding match_inner_atom [OF False p atom] Let_def
          by (auto split: option.splits if_splits outcome.splits
              dest: ex fe IH [OF Suc.prems(1)] IH [OF rs])
      qed
    qed
  qed
qed

subsection \<open>An expression that raises, after a group-free prefix\<close>

lemma scan_class_le: "p \<le> scan_class pat p"
proof (induction pat p rule: scan_class.induct)
  case (1 pat p)
  show ?case
  proof (cases "p < length pat \<and> pat ! p \<noteq> CHR '']''")
    case True
    with "1.IH" have "p + 1 \<le> scan_class pat (p + 1)" by simp
    with True show ?thesis by (subst scan_class.simps) simp
  next
    case False
    then show ?thesis by (subst scan_class.simps) auto
  qed
qed

lemma scan_class_append:
  "scan_class pat p < length pat \<Longrightarrow> scan_class (pat @ Z) p = scan_class pat p"
proof (induction pat p rule: scan_class.induct)
  case (1 pat p)
  have lt: "p < length pat"
    using "1.prems" scan_class_le [of p pat] by simp
  show ?case
  proof (cases "pat ! p \<noteq> CHR '']''")
    case True
    have a: "scan_class pat p = scan_class pat (p + 1)"
      using True lt by (subst scan_class.simps) simp
    have "scan_class (pat @ Z) p = scan_class (pat @ Z) (p + 1)"
      using True lt by (subst scan_class.simps) (simp add: nth_append)
    also have "\<dots> = scan_class pat (p + 1)"
      using "1.IH" True lt "1.prems" a by simp
    finally show ?thesis using a by simp
  next
    case False
    have "scan_class pat p = p"
      using False by (subst scan_class.simps) simp
    moreover have "scan_class (pat @ Z) p = p"
      using False lt by (subst scan_class.simps) (simp add: nth_append)
    ultimately show ?thesis by simp
  qed
qed

lemma find_matching_paren_loop_bounds:
  "find_matching_paren_loop pat i d = Inr j \<Longrightarrow> i \<le> j \<and> j < length pat"
proof (induction pat i d rule: find_matching_paren_loop.induct)
  case (1 pat i open_parens)
  show ?case
    using "1.prems" "1.IH"
    by (subst (asm) find_matching_paren_loop.simps)
       (fastforce simp add: Let_def split: if_splits)
qed

lemma parse_expression_length:
  assumes "parse_expression pat = Inr (a, l, n)"
  shows "0 < l \<and> l \<le> length pat"
proof (cases "take 1 pat = ''(''")
  case True
  then show ?thesis
    using assms
    by (auto simp add: parse_expression_def find_matching_paren_def Let_def
        split: sum.splits dest!: find_matching_paren_loop_bounds)
next
  case False
  then show ?thesis
    using assms
    by (auto simp add: parse_expression_def parse_single_atom_def Let_def Suc_le_eq
        split: if_splits sum.splits)
qed

lemma scan_class_end: "length pat \<le> p \<Longrightarrow> scan_class pat p = p"
  by (subst scan_class.simps) simp

lemma parse_expression_append:
  assumes "parse_expression pat = Inr (a, l, n)" and "pat \<noteq> []" and "\<forall>alts. a \<noteq> Group alts"
  shows "parse_expression (pat @ Z) = Inr (a, l, n)"
proof -
  obtain c cs where pat: "pat = c # cs"
    using assms(2) by (cases pat) auto
  have ng: "c \<noteq> CHR ''(''"
    using assms(1,3) by (auto simp add: parse_expression_def pat Let_def split: sum.splits)
  have p: "parse_single_atom pat = Inr (a, l, n)"
    using assms(1) ng by (simp add: parse_expression_def pat)
  have "parse_single_atom (pat @ Z) = Inr (a, l, n)"
  proof (cases "c = bs")
    case True
    obtain e es where cs: "cs = e # es"
      using p True by (cases cs) (simp_all add: parse_single_atom_def pat)
    show ?thesis
      using p by (simp add: parse_single_atom_def pat True cs Let_def)
  next
    case nb: False
    show ?thesis
    proof (cases "c = CHR ''[''")
      case True
      let ?start = "if 1 < length pat \<and> pat ! 1 = CHR ''^'' then 2 else (1::nat)"
      have nb': "CHR ''['' \<noteq> bs"
        by (simp add: bs_def)
      have lt: "scan_class pat ?start < length pat"
        using p nb'
        by (cases cs) (auto simp add: parse_single_atom_def pat True Let_def scan_class_end
            split: if_splits)
      have "?start \<le> scan_class pat ?start"
        by (rule scan_class_le)
      with lt have len: "1 < length pat" by (simp split: if_splits)
      then obtain e es where cs: "cs = e # es"
        by (cases cs) (simp_all add: pat)
      have sc: "scan_class (pat @ Z) ?start = scan_class pat ?start"
        using lt by (rule scan_class_append)
      show ?thesis
      proof (cases "e = CHR ''^''")
        case e: True
        have lt2: "scan_class (CHR ''['' # CHR ''^'' # es) 2 < Suc (Suc (length es))"
          using lt by (simp add: pat cs e True)
        have sc2: "scan_class (CHR ''['' # CHR ''^'' # es @ Z) 2
                     = scan_class (CHR ''['' # CHR ''^'' # es) 2"
          using sc by (simp add: pat cs e True)
        show ?thesis
          using p lt2 nb' by (simp add: parse_single_atom_def pat True cs e Let_def sc2)
      next
        case e: False
        have lt2: "scan_class (CHR ''['' # e # es) (Suc 0) < Suc (Suc (length es))"
          using lt e by (simp add: pat cs True)
        have sc2: "scan_class (CHR ''['' # e # es @ Z) (Suc 0) = scan_class (CHR ''['' # e # es) (Suc 0)"
          using sc e by (simp add: pat cs True)
        have tk: "take (k - Suc 0) (e # es @ Z) = take (k - Suc 0) (e # es)"
          if "k < Suc (Suc (length es))" for k
          using that by (simp add: take_Cons')
        show ?thesis
          using p lt2 e nb' by (simp add: parse_single_atom_def pat True cs Let_def sc2 tk)
      qed
    next
      case False
      then show ?thesis
        using p nb by (auto simp add: parse_single_atom_def pat Let_def split: if_splits)
    qed
  qed
  then show ?thesis
    using ng by (simp add: parse_expression_def pat)
qed

lemma quantifier_of_append:
  assumes "l \<le> length pat" and "Z \<noteq> []" and "hd Z \<notin> set ''+?*''"
  shows "quantifier_of (pat @ Z) l = quantifier_of pat l"
proof (cases "l < length pat")
  case True
  then show ?thesis by (simp add: quantifier_of_def nth_append)
next
  case False
  with assms(1) have "l = length pat" by simp
  then show ?thesis
    using assms(2,3) by (simp add: quantifier_of_def hd_conv_nth nth_append)
qed

lemma rest_after_append:
  assumes "l \<le> length pat" and "Z \<noteq> []" and "hd Z \<notin> set ''+?*''"
  shows "rest_after (pat @ Z) l = rest_after pat l @ Z"
proof -
  have "quantifier_of pat l \<noteq> None \<Longrightarrow> l < length pat"
    by (simp add: quantifier_of_def split: if_splits)
  then show ?thesis
    using assms(1)
    by (auto simp add: rest_after_def quantifier_of_append [OF assms])
qed

lemma match_inner_type_error:
  assumes "pat \<noteq> []" and "parse_expression pat = Inr (a, l, negated)"
    and "get_match_fn a negated = None"
    and "\<forall>alts. a \<noteq> Group alts" and "\<forall>r. a \<noteq> Backreference r"
  shows "match_inner (Suc n) inp pat gc k s = Raise TypeError s"
  using assms by (cases a) (auto simp add: match_inner.simps(2) Let_def)

lemma for_each_raise_at_result:
  assumes "\<And>x. body1 x s = raise_at_result e (body2 x s)"
    and "\<And>x t. body2 x s = Cont t \<Longrightarrow> t = s"
  shows "for_each xs body1 s = raise_at_result e (for_each xs body2 s)"
proof (induction xs)
  case Nil
  show ?case by (simp add: raise_at_result_def)
next
  case (Cons x xs)
  show ?case
  proof (cases "\<exists>t. body2 x s = Cont t")
    case True
    then obtain t where c: "body2 x s = Cont t" by blast
    with assms(2) have "t = s" by simp
    with c Cons.IH assms(1) [of x] show ?thesis by (simp add: raise_at_result_def)
  next
    case False
    then show ?thesis
      using assms(1) [of x] by (cases "body2 x s") (simp_all add: raise_at_result_def)
  qed
qed

lemma atom_dispatch_raise_at_result:
  fixes ex1 :: "nat \<Rightarrow> captures \<Rightarrow> 'r outcome"
  assumes "\<And>j. ex1 j s = raise_at_result e (ex2 j s)"
    and "\<And>j t. ex2 j s = Cont t \<Longrightarrow> t = s"
  shows "(case qo of
            None \<Rightarrow> if c then ex1 1 s else Cont s
          | Some q \<Rightarrow>
              if q = CHR ''+'' then (if nc then Cont s else for_each js1 ex1 s)
              else if q = CHR ''?'' then
                (case (if c then ex1 1 s else Cont s) of Cont s' \<Rightarrow> ex1 0 s' | r \<Rightarrow> r)
              else for_each js0 ex1 s)
         = raise_at_result e
             (case qo of
                None \<Rightarrow> if c then ex2 1 s else Cont s
              | Some q \<Rightarrow>
                  if q = CHR ''+'' then (if nc then Cont s else for_each js1 ex2 s)
                  else if q = CHR ''?'' then
                    (case (if c then ex2 1 s else Cont s) of Cont s' \<Rightarrow> ex2 0 s' | r \<Rightarrow> r)
                  else for_each js0 ex2 s)"
proof -
  have fe: "for_each js ex1 s = raise_at_result e (for_each js ex2 s)" for js
    using assms by (rule for_each_raise_at_result)
  have c0: "raise_at_result e (Cont s) = (Cont s :: 'r outcome)"
    by (simp add: raise_at_result_def)
  have opt: "(case ex1 1 s of Cont s' \<Rightarrow> ex1 0 s' | r \<Rightarrow> r)
               = raise_at_result e (case ex2 1 s of Cont s' \<Rightarrow> ex2 0 s' | r \<Rightarrow> r)"
  proof (cases "\<exists>t. ex2 1 s = Cont t")
    case True
    then obtain t where t: "ex2 1 s = Cont t" by blast
    with assms(2) have "t = s" by simp
    with t assms(1) [of 1] assms(1) [of 0] show ?thesis by (simp add: raise_at_result_def)
  next
    case False
    then show ?thesis
      using assms(1) [of 1] by (cases "ex2 1 s") (simp_all add: raise_at_result_def)
  qed
  show ?thesis
  proof (cases qo)
    case None
    then show ?thesis using assms(1) [of 1] c0 by simp
  next
    case (Some q)
    show ?thesis
    proof (cases c)
      case True
      then show ?thesis unfolding Some using fe c0 opt by simp
    next
      case False
      then show ?thesis unfolding Some using fe c0 assms(1) [of 0] by simp
    qed
  qed
qed

lemma match_inner_prefix:
  fixes k :: "'r consumer"
  assumes "Z \<noteq> []" and "hd Z \<notin> set ''+?*''"
    and "\<And>n inp gc (k :: 'r consumer). match_inner (Suc n) inp Z gc k s = Raise e s"
  shows "plain_prefix P \<Longrightarrow>
         match_inner n inp (P @ Z) gc k s
           = raise_at_result e (match_inner n inp P gc (\<lambda>l c t. Stop () t) s)"
proof (induction n arbitrary: inp P gc k)
  case 0
  show ?case by (simp add: raise_at_result_def)
next
  case (Suc n)
  have st: "restoring (\<lambda>(l::nat) (c::nat) t. (Stop () t :: unit outcome))"
    by (simp add: restoring_def)
  have rst: "match_inner n i pat g (\<lambda>l c t. Stop () t) s = Cont t \<Longrightarrow> t = s" for i pat g t
    by (rule match_inner_restoring [OF st])
  show ?case
  proof (cases "P = []")
    case True
    then show ?thesis
      by (simp add: assms(3) match_inner_empty raise_at_result_def)
  next
    case False
    from Suc.prems False obtain a l negated where
      p: "parse_expression P = Inr (a, l, negated)" and ng: "\<forall>alts. a \<noteq> Group alts"
      and pp: "plain_prefix (rest_after P l)"
      by (subst (asm) plain_prefix.simps) (auto split: sum.splits atom.splits)
    have pz: "parse_expression (P @ Z) = Inr (a, l, negated)"
      using p False ng by (rule parse_expression_append)
    have len: "l \<le> length P"
      using parse_expression_length [OF p] by simp
    have q: "quantifier_of (P @ Z) l = quantifier_of P l"
      using len assms(1,2) by (rule quantifier_of_append)
    have r: "rest_after (P @ Z) l = rest_after P l @ Z"
      using len assms(1,2) by (rule rest_after_append)
    have nz: "P @ Z \<noteq> []"
      using False by simp
    have IH: "match_inner n i (rest_after P l @ Z) g k' s
                = raise_at_result e (match_inner n i (rest_after P l) g (\<lambda>l c t. Stop () t) s)"
      for i g and k' :: "'r consumer"
      using pp by (rule Suc.IH)
    consider (bref) ref_num where "a = Backreference ref_num"
      | (nofn) "get_match_fn a negated = None" "\<forall>r. a \<noteq> Backreference r"
      | (atom) match_fn where "get_match_fn a negated = Some match_fn"
      using ng by (cases "get_match_fn a negated"; cases a) auto
    then show ?thesis
    proof cases
      case bref
      show ?thesis
        unfolding match_inner_backreference [OF nz pz [unfolded bref]]
          match_inner_backreference [OF False p [unfolded bref]] r
        by (simp add: IH raise_at_result_def split: sum.split option.split)
    next
      case nofn
      show ?thesis
        unfolding match_inner_type_error [OF nz pz nofn(1) ng nofn(2)]
          match_inner_type_error [OF False p nofn(1) ng nofn(2)]
        by (simp add: raise_at_result_def)
    next
      case atom
      let ?ex1 = "\<lambda>j. match_inner n (drop j inp) (rest_after P l @ Z) gc (\<lambda>r c. k (j + r) c)"
      let ?ex2 = "\<lambda>j. match_inner n (drop j inp) (rest_after P l) gc
                         (\<lambda>(r::nat) (c::nat) t. (Stop () t :: unit outcome))"
      have ex: "?ex1 j s = raise_at_result e (?ex2 j s)" for j
        by (rule IH)
      show ?thesis
        unfolding match_inner_atom [OF nz pz atom] match_inner_atom [OF False p atom] q r Let_def
        by (rule atom_dispatch_raise_at_result [where ?ex1.0 = ?ex1 and ?ex2.0 = ?ex2])
           (rule ex, rule rst)
    qed
  qed
qed

lemma has_match_prefix:
  assumes "strip_anchors (pattern self) = (start_anchored, end_anchored, P @ Z)"
    and "plain_prefix P" and "Z \<noteq> []" and "hd Z \<notin> set ''+?*''"
    and "\<And>n inp gc (k :: unit consumer).
           match_inner (Suc n) inp Z gc k (replicate (num_capture_groups self) None)
             = Raise e (replicate (num_capture_groups self) None)"
  shows "match_pattern n self s =
           (case (if start_anchored then
                    match_inner n s P 0 (\<lambda>l c t. Stop () t)
                      (replicate (num_capture_groups self) None)
                  else
                    for_each [0..<length s + 1]
                      (\<lambda>i. match_inner n (drop i s) P 0 (\<lambda>l c t. Stop () t))
                      (replicate (num_capture_groups self) None)) of
              OutOfFuel \<Rightarrow> Diverges
            | Raise x t \<Rightarrow> Raises x (self\<lparr>captures := t\<rparr>)
            | Stop u t \<Rightarrow> Raises e (self\<lparr>captures := t\<rparr>)
            | Cont t \<Rightarrow> Returns False (self\<lparr>captures := t\<rparr>))"
proof -
  let ?c0 = "replicate (num_capture_groups self) None"
  have st: "restoring (\<lambda>(l::nat) (c::nat) t. (Stop () t :: unit outcome))"
    by (simp add: restoring_def)
  have rst: "match_inner n i pat g (\<lambda>l c t. Stop () t) ?c0 = Cont t \<Longrightarrow> t = ?c0" for i pat g t
    by (rule match_inner_restoring [OF st])
  have A: "match_inner n i (P @ Z) 0 kk ?c0
             = raise_at_result e (match_inner n i P 0 (\<lambda>l c t. Stop () t) ?c0)"
    for i and kk :: "unit consumer"
    using assms(3,4,5,2) by (rule match_inner_prefix)
  have B: "for_each js (\<lambda>i. match_inner n (drop i s) (P @ Z) 0 (kk i)) ?c0
             = raise_at_result e
                 (for_each js (\<lambda>i. match_inner n (drop i s) P 0 (\<lambda>l c t. Stop () t)) ?c0)"
    for js and kk :: "nat \<Rightarrow> unit consumer"
    by (rule for_each_raise_at_result) (rule A, rule rst)
  show ?thesis
  proof (cases start_anchored)
    case True
    then show ?thesis
      by (simp add: match_pattern_def has_match_def assms(1) Let_def A raise_at_result_def
          split: outcome.split)
  next
    case False
    have "for_each [0..<length s + 1]
            (\<lambda>i. match_inner n (drop i s) (P @ Z) 0
                    (if end_anchored
                     then (\<lambda>len counter s'. if i + len = length s then Stop () s' else Cont s')
                     else (\<lambda>len counter s'. Stop () s'))) ?c0
          = raise_at_result e
              (for_each [0..<length s + 1]
                 (\<lambda>i. match_inner n (drop i s) P 0 (\<lambda>l c t. Stop () t)) ?c0)"
      by (rule B)
    then show ?thesis
      using False
      by (simp add: match_pattern_def has_match_def assms(1) Let_def raise_at_result_def
          split: outcome.split del: upt_Suc)
  qed
qed

text \<open>
  Claim C9. A pattern without capture groups that is, between its anchors, a group-free
  prefix \<open>P\<close> followed by \<open>\0\<close>: every dispatch on \<open>\0\<close> reads position \<open>-1\<close> of the
  empty table and raises \<open>IndexError\<close>, and nothing catches it. So \<open>match_pattern\<close>
  raises \<open>IndexError\<close> on exactly the lines on which the prefix yields a result, that
  is, on which matching reaches \<open>\0\<close>; it never returns \<open>True\<close>; and when the pattern
  begins with \<open>\0\<close> every line raises.
\<close>

theorem backref_zero_raises_when_reached:
  assumes "strip_anchors pat = (start_anchored, end_anchored, P @ bs # CHR ''0'' # r)"
    and "count_capture_groups pat = 0"
    and "plain_prefix P"
  shows "match_inner (Suc n) inp (bs # CHR ''0'' # r) gc k [] = Raise IndexError []
         \<and> match_pattern n (init pat) s =
             (case (if start_anchored then match_inner n s P 0 (\<lambda>l c t. Stop () t) []
                    else for_each [0..<length s + 1]
                           (\<lambda>i. match_inner n (drop i s) P 0 (\<lambda>l c t. Stop () t)) []) of
                OutOfFuel \<Rightarrow> Diverges
              | Raise x t \<Rightarrow> Raises x ((init pat)\<lparr>captures := t\<rparr>)
              | Stop u t \<Rightarrow> Raises IndexError ((init pat)\<lparr>captures := t\<rparr>)
              | Cont t \<Rightarrow> Returns False ((init pat)\<lparr>captures := t\<rparr>))
         \<and> (P = [] \<longrightarrow> match_pattern (Suc n) (init pat) s = Raises IndexError (init pat))"
proof -
  have d: "match_inner (Suc n) inp (bs # CHR ''0'' # r) gc k [] = Raise IndexError []"
    for n inp gc and k :: "'b consumer"
    by (rule match_inner_backref_zero_empty_table)
  have a: "strip_anchors (pattern (init pat))
             = (start_anchored, end_anchored, P @ bs # CHR ''0'' # r)"
    using assms(1) by (simp add: init_def)
  have g: "replicate (num_capture_groups (init pat)) None = []"
    using assms(2) by (simp add: init_def)
  have q: "hd (bs # CHR ''0'' # r) \<notin> set ''+?*''"
    by (simp add: bs_def)
  have m: "match_pattern n (init pat) s =
             (case (if start_anchored then match_inner n s P 0 (\<lambda>l c t. Stop () t) []
                    else for_each [0..<length s + 1]
                           (\<lambda>i. match_inner n (drop i s) P 0 (\<lambda>l c t. Stop () t)) []) of
                OutOfFuel \<Rightarrow> Diverges
              | Raise x t \<Rightarrow> Raises x ((init pat)\<lparr>captures := t\<rparr>)
              | Stop u t \<Rightarrow> Raises IndexError ((init pat)\<lparr>captures := t\<rparr>)
              | Cont t \<Rightarrow> Returns False ((init pat)\<lparr>captures := t\<rparr>))" for n
  proof -
    have z: "bs # CHR ''0'' # r \<noteq> []"
      by simp
    have dd: "match_inner (Suc n) inp (bs # CHR ''0'' # r) gc k
                (replicate (num_capture_groups (init pat)) None)
              = Raise IndexError (replicate (num_capture_groups (init pat)) None)"
      for n inp gc and k :: "unit consumer"
      unfolding g by (rule d)
    show ?thesis
      using has_match_prefix [OF a assms(3) z q dd] unfolding g .
  qed
  have e: "match_pattern (Suc n) (init pat) s = Raises IndexError (init pat)" if "P = []"
    unfolding m [of "Suc n"] that
    by (simp add: match_inner_empty for_each_upt_first init_def del: upt_Suc)
  show ?thesis
    using d m e by blast
qed

theorem backref_zero_raises_when_reached_witness:
  "strip_anchors (''a*'' @ bs # ''0$'') = (False, True, ''a*'' @ bs # ''0'')
   \<and> count_capture_groups (''a*'' @ bs # ''0$'') = 0
   \<and> plain_prefix ''a*''
   \<and> match_pattern 3 (init (''a*'' @ bs # ''0$'')) ''b''
       = Raises IndexError (init (''a*'' @ bs # ''0$''))"
proof -
  have a: "strip_anchors (''a*'' @ bs # ''0$'') = (False, True, ''a*'' @ bs # CHR ''0'' # [])"
    by (simp add: strip_anchors_def bs_def)
  have g: "count_capture_groups (''a*'' @ bs # ''0$'') = 0"
    by (simp add: bs_def)
  have p: "plain_prefix ''a*''"
    by code_simp
  have x: "for_each [0..<length ''b'' + 1]
             (\<lambda>i. match_inner 3 (drop i ''b'') ''a*'' 0 (\<lambda>l c t. Stop () t)) []
           = Stop () []"
    by code_simp
  have "match_pattern 3 (init (''a*'' @ bs # ''0$'')) ''b''
          = Raises IndexError ((init (''a*'' @ bs # ''0$''))\<lparr>captures := []\<rparr>)"
    using backref_zero_raises_when_reached [OF a g p, where n = 3 and s = "''b''" and inp = "[]" and gc = 0
        and k = "\<lambda>l c t. (Cont t :: unit outcome)"]
    by (simp only: x if_False outcome.case)
  then show ?thesis
    using a g p by (simp add: init_def)
qed




subsection \<open>The capture table at the backtrack points of a group\<close>








text \<open>
  The three points above are the places where the table is copied and put back. While
  the generator of one alternative is resumed for its next result, the slot of the group
  itself keeps the text written at the previous result; a backreference to the enclosing
  group can see it.
\<close>

lemma resumed_alternative_keeps_slot:
  "match_pattern 6 (init (''^(a?('' @ bs # CHR ''1'' # bs # ''1)?)$'')) ''aa''
     = Returns True
         ((init (''^(a?('' @ bs # CHR ''1'' # bs # ''1)?)$''))
            \<lparr>captures := [Some ''aa'', Some ''aa'']\<rparr>)"
  by code_simp

subsection \<open>Greedy enumeration of a quantified atom\<close>

lemma count_reps_takeWhile:
  "reps \<le> length inp \<Longrightarrow>
   count_reps match_fn inp reps = reps + length (takeWhile match_fn (drop reps inp))"
proof (induction match_fn inp reps rule: count_reps.induct)
  case (1 match_fn inp reps)
  show ?case
  proof (cases "reps < length inp \<and> match_fn (inp ! reps)")
    case True
    then have d: "drop reps inp = inp ! reps # drop (Suc reps) inp"
      by (simp add: Cons_nth_drop_Suc)
    have "count_reps match_fn inp reps = count_reps match_fn inp (reps + 1)"
      using True by (subst count_reps.simps) simp
    also have "\<dots> = (reps + 1) + length (takeWhile match_fn (drop (reps + 1) inp))"
      using True by (intro "1.IH") simp_all
    finally show ?thesis
      using True by (simp add: d)
  next
    case False
    then have "count_reps match_fn inp reps = reps"
      by (subst count_reps.simps) auto
    moreover have "takeWhile match_fn (drop reps inp) = []"
    proof (cases "reps < length inp")
      case True
      with False show ?thesis by (simp add: Cons_nth_drop_Suc [symmetric])
    next
      case False
      then show ?thesis by simp
    qed
    ultimately show ?thesis by simp
  qed
qed

lemma count_reps_zero: "count_reps match_fn inp 0 = length (takeWhile match_fn inp)"
  using count_reps_takeWhile [of 0 inp match_fn] by simp

lemma count_reps_one:
  assumes "inp \<noteq> []" and "match_fn (inp ! 0)"
  shows "count_reps match_fn inp 1 = length (takeWhile match_fn inp)"
proof -
  obtain x xs where inp: "inp = x # xs" using assms(1) by (cases inp) auto
  with assms(2) have "match_fn x" by simp
  then show ?thesis
    using count_reps_takeWhile [of 1 inp match_fn] by (simp add: inp)
qed

lemma takeWhile_maximal:
  "length (takeWhile P xs) \<le> length xs
   \<and> (\<forall>i < length (takeWhile P xs). P (xs ! i))
   \<and> (length (takeWhile P xs) < length xs \<longrightarrow> \<not> P (xs ! length (takeWhile P xs)))"
proof (intro conjI allI impI)
  show "length (takeWhile P xs) \<le> length xs"
    by (rule length_takeWhile_le)
next
  fix i
  assume i: "i < length (takeWhile P xs)"
  then have "takeWhile P xs ! i \<in> set (takeWhile P xs)"
    by (rule nth_mem)
  then have "P (takeWhile P xs ! i)"
    by (rule set_takeWhileD [THEN conjunct2])
  then show "P (xs ! i)"
    using i by (simp add: takeWhile_nth)
next
  assume "length (takeWhile P xs) < length xs"
  then show "\<not> P (xs ! length (takeWhile P xs))"
    by (rule nth_length_takeWhile)
qed

lemma for_each_skip:
  assumes "\<And>x. x \<in> set xs \<Longrightarrow> body x s = Cont s"
  shows "for_each (xs @ ys) body s = for_each ys body s"
  using assms by (induction xs) simp_all

lemma for_each_first:
  "\<not> exhausted (body x s) \<Longrightarrow> for_each (x # xs) body s = body x s"
  by (cases "body x s") (simp_all add: exhausted_def)

lemma rev_upt_split:
  assumes "lo \<le> j" and "j \<le> K"
  shows "rev [lo..<Suc K] = rev [Suc j..<Suc K] @ j # rev [lo..<j]"
proof -
  have "[lo..<Suc K] = [lo..<Suc j] @ [Suc j..<Suc K]"
    using assms upt_add_eq_append [of lo "Suc j" "K - j"] by simp
  then show ?thesis using assms by simp
qed

lemma greedy_first:
  assumes "lo \<le> j" and "j \<le> K" and "\<And>j'. j < j' \<Longrightarrow> j' \<le> K \<Longrightarrow> explore j' s = Cont s"
    and "\<not> exhausted (explore j s)"
  shows "for_each (rev [lo..<Suc K]) explore s = explore j s"
proof -
  have "for_each (rev [Suc j..<Suc K] @ j # rev [lo..<j]) explore s
          = for_each (j # rev [lo..<j]) explore s"
    by (rule for_each_skip) (use assms(3) in auto)
  moreover have "for_each (j # rev [lo..<j]) explore s = explore j s"
    using assms(4) by (rule for_each_first)
  ultimately show ?thesis
    by (simp only: rev_upt_split [OF assms(1,2)])
qed

text \<open>
  Claim C5. An atom with the character test \<open>match_fn\<close>, and \<open>K\<close> the length of the
  longest prefix of the input whose characters all pass the test. Under \<open>+\<close> nothing is
  enumerated unless the first character passes, and otherwise the remaining pattern is
  explored after \<open>K\<close>, \<open>K - 1\<close>, ..., \<open>1\<close> repetitions, in this order, each result \<open>r\<close> of
  the remainder being handed on as \<open>j + r\<close>; under \<open>*\<close> likewise after \<open>K\<close>, ..., \<open>0\<close>
  repetitions. So the first result comes from the largest number of repetitions after which
  the remainder yields one.
\<close>

theorem greedy_first_enumeration:
  assumes "pat \<noteq> []" and "parse_expression pat = Inr (a, expr_len, negated)"
    and "get_match_fn a negated = Some match_fn"
  shows "(let K = length (takeWhile match_fn inp);
              explore = (\<lambda>j. match_inner n (drop j inp) (rest_after pat expr_len) gc
                                (\<lambda>r c. k (j + r) c))
          in (quantifier_of pat expr_len = Some (CHR ''+'') \<longrightarrow>
                match_inner (Suc n) inp pat gc k s =
                  (if inp = [] \<or> \<not> match_fn (inp ! 0) then Cont s
                   else for_each (rev [1..<Suc K]) explore s))
             \<and> (quantifier_of pat expr_len = Some (CHR ''*'') \<longrightarrow>
                match_inner (Suc n) inp pat gc k s = for_each (rev [0..<Suc K]) explore s)
             \<and> K \<le> length inp
             \<and> (\<forall>i < K. match_fn (inp ! i))
             \<and> (K < length inp \<longrightarrow> \<not> match_fn (inp ! K))
             \<and> (lo \<le> j \<and> j \<le> K \<and> (\<forall>j'. j < j' \<and> j' \<le> K \<longrightarrow> explore j' s = Cont s)
                  \<and> \<not> exhausted (explore j s) \<longrightarrow>
                for_each (rev [lo..<Suc K]) explore s = explore j s))"
proof -
  let ?K = "length (takeWhile match_fn inp)"
  let ?explore = "\<lambda>j. match_inner n (drop j inp) (rest_after pat expr_len) gc (\<lambda>r c. k (j + r) c)"
  note d = match_inner_atom [OF assms, of n inp gc k s, unfolded Let_def]
  have plus: "match_inner (Suc n) inp pat gc k s =
                (if inp = [] \<or> \<not> match_fn (inp ! 0) then Cont s
                 else for_each (rev [1..<Suc ?K]) ?explore s)"
    if "quantifier_of pat expr_len = Some (CHR ''+'')"
  proof (cases "inp = [] \<or> \<not> match_fn (inp ! 0)")
    case True
    then show ?thesis unfolding d that by simp
  next
    case False
    then have "count_reps match_fn inp 1 = ?K"
      by (intro count_reps_one) simp_all
    with False show ?thesis unfolding d that by (simp del: upt_Suc)
  qed
  have star: "match_inner (Suc n) inp pat gc k s = for_each (rev [0..<Suc ?K]) ?explore s"
    if "quantifier_of pat expr_len = Some (CHR ''*'')"
    unfolding d that by (simp add: count_reps_zero del: upt_Suc)
  have first: "for_each (rev [lo..<Suc ?K]) ?explore s = ?explore j s"
    if "lo \<le> j" "j \<le> ?K" "\<forall>j'. j < j' \<and> j' \<le> ?K \<longrightarrow> ?explore j' s = Cont s"
      "\<not> exhausted (?explore j s)"
    using that(1,2) _ that(4) by (rule greedy_first) (use that(3) in blast)
  show ?thesis
    unfolding Let_def
    using plus star first takeWhile_maximal [of match_fn inp] by blast
qed

theorem greedy_first_enumeration_witness:
  "parse_expression ''a+ab'' = Inr (Literal (CHR ''a''), 1, False)
   \<and> get_match_fn (Literal (CHR ''a'')) False = Some (\<lambda>c. c = CHR ''a'')
   \<and> quantifier_of ''a+ab'' 1 = Some (CHR ''+'')
   \<and> length (takeWhile (\<lambda>c. c = CHR ''a'') ''aab'') = 2
   \<and> match_inner 4 (drop 2 ''aab'') (rest_after ''a+ab'' 1) 0 (\<lambda>r c s. Stop (2 + r) s) []
       = Cont []
   \<and> match_inner 4 (drop 1 ''aab'') (rest_after ''a+ab'' 1) 0 (\<lambda>r c s. Stop (1 + r) s) []
       = Stop 3 []
   \<and> match_inner 5 ''aab'' ''a+ab'' 0 (\<lambda>l c s. Stop l s) [] = Stop 3 []"
proof -
  have ne: "''a+ab'' \<noteq> []"
    by simp
  have p: "parse_expression ''a+ab'' = Inr (Literal (CHR ''a''), 1, False)"
    by code_simp
  have f: "get_match_fn (Literal (CHR ''a'')) False = Some (\<lambda>c. c = CHR ''a'')"
    by (simp add: get_match_fn_def)
  have q: "quantifier_of ''a+ab'' 1 = Some (CHR ''+'')"
    by code_simp
  have K: "length (takeWhile (\<lambda>c. c = CHR ''a'') ''aab'') = 2"
    by simp
  have e2: "match_inner 4 (drop 2 ''aab'') (rest_after ''a+ab'' 1) 0 (\<lambda>r c s. Stop (2 + r) s) []
              = Cont []"
    by code_simp
  have e1: "match_inner 4 (drop 1 ''aab'') (rest_after ''a+ab'' 1) 0 (\<lambda>r c s. Stop (1 + r) s) []
              = Stop 3 []"
    by code_simp
  note T = greedy_first_enumeration [OF ne p f, where n = 4 and inp = "''aab''" and gc = 0
      and k = "\<lambda>l c s. Stop l s" and s = "[]" and lo = 1 and j = 1, unfolded Let_def K]
  have a: "\<forall>j'. 1 < j' \<and> j' \<le> 2 \<longrightarrow>
             match_inner 4 (drop j' ''aab'') (rest_after ''a+ab'' 1) 0 (\<lambda>r c s. Stop (j' + r) s) []
               = Cont []"
  proof (intro allI impI)
    fix j' :: nat
    assume "1 < j' \<and> j' \<le> 2"
    then have "j' = 2" by simp
    then show "match_inner 4 (drop j' ''aab'') (rest_after ''a+ab'' 1) 0
                 (\<lambda>r c s. Stop (j' + r) s) [] = Cont []"
      using e2 by simp
  qed
  have x: "\<not> exhausted (match_inner 4 (drop 1 ''aab'') (rest_after ''a+ab'' 1) 0
                          (\<lambda>r c s. Stop (1 + r) s) [])"
    unfolding e1 by (simp add: exhausted_def)
  have g: "for_each (rev [1..<Suc 2])
             (\<lambda>j. match_inner 4 (drop j ''aab'') (rest_after ''a+ab'' 1) 0 (\<lambda>r c s. Stop (j + r) s)) []
           = Stop 3 []"
    using T a x e1 by simp
  have "match_inner 5 ''aab'' ''a+ab'' 0 (\<lambda>l c s. Stop l s) [] = Stop 3 []"
    using T q g by simp
  then show ?thesis
    using p f q K e2 e1 by blast
qed

subsection \<open>Plus and star after an atom\<close>

lemma stops_or_same_refl: "stops_or_same r r"
  by (simp add: stops_or_same_def split: outcome.split)

lemma stops_or_same_Stop: "stops_or_same r (Stop u t)"
  by (simp add: stops_or_same_def)

lemma stops_or_same_seq:
  assumes "stops_or_same r1 r2" and "\<And>s. stops_or_same (f1 s) (f2 s)"
  shows "stops_or_same (case r1 of Cont s \<Rightarrow> f1 s | r \<Rightarrow> r) (case r2 of Cont s \<Rightarrow> f2 s | r \<Rightarrow> r)"
proof (cases r2)
  case (Cont s)
  with assms(1) have "r1 = Cont s" by (simp add: stops_or_same_def)
  with Cont assms(2) show ?thesis by simp
qed (use assms(1) in \<open>simp_all add: stops_or_same_def\<close>)

lemma stops_or_same_for_each:
  assumes "\<And>x s. stops_or_same (body1 x s) (body2 x s)"
  shows "stops_or_same (for_each xs body1 s) (for_each xs body2 s)"
proof (induction xs arbitrary: s)
  case Nil
  show ?case by (simp add: stops_or_same_refl)
next
  case (Cons x xs)
  show ?case
    unfolding for_each.simps
    by (rule stops_or_same_seq) (rule assms, rule Cons.IH)
qed

lemma stops_or_same_once:
  assumes "\<And>alt ka kb t. (\<And>l c s. stops_or_same (ka l c s) (kb l c s))
             \<Longrightarrow> stops_or_same (rec inp alt g ka t) (rec inp alt g kb t)"
    and "\<And>l c s. stops_or_same (k1 l c s) (k2 l c s)"
  shows "stops_or_same (match_group_content_once rec alternatives gn inp g k1 s)
           (match_group_content_once rec alternatives gn inp g k2 s)"
  unfolding match_group_content_once_def Let_def
proof (rule stops_or_same_for_each, rule stops_or_same_seq)
  fix alt s0
  show "stops_or_same
          (rec inp alt g
             (\<lambda>alt_len alt_counter s1.
                case py_setitem s1 (int gn - 1) (Some (take alt_len inp)) of
                  Inl e \<Rightarrow> Raise e s1
                | Inr s2 \<Rightarrow> k1 alt_len alt_counter s2) s0)
          (rec inp alt g
             (\<lambda>alt_len alt_counter s1.
                case py_setitem s1 (int gn - 1) (Some (take alt_len inp)) of
                  Inl e \<Rightarrow> Raise e s1
                | Inr s2 \<Rightarrow> k2 alt_len alt_counter s2) s0)"
    by (rule assms(1)) (simp add: assms(2) stops_or_same_refl split: sum.split)
next
  fix alt s0 s
  show "stops_or_same (Cont s0) (Cont s0)"
    by (rule stops_or_same_refl)
qed

lemma stops_or_same_plus:
  assumes "\<And>i ka kb t. (\<And>l c s. stops_or_same (ka l c s) (kb l c s))
             \<Longrightarrow> stops_or_same (once i g ka t) (once i g kb t)"
  shows "(\<And>l c s. stops_or_same (k1 l c s) (k2 l c s))
         \<Longrightarrow> stops_or_same (match_plus_group m once inp g k1 s) (match_plus_group m once inp g k2 s)"
proof (induction m arbitrary: inp k1 k2 s)
  case 0
  show ?case by (simp add: stops_or_same_refl)
next
  case (Suc m)
  show ?case
    unfolding match_plus_group.simps Let_def
  proof (rule assms, rule stops_or_same_seq)
    fix l c s1
    show "stops_or_same
            (match_plus_group m once (drop l inp) g (\<lambda>rest_plus_len. k1 (l + rest_plus_len)) s1)
            (match_plus_group m once (drop l inp) g (\<lambda>rest_plus_len. k2 (l + rest_plus_len)) s1)"
      by (rule Suc.IH) (rule Suc.prems)
  next
    fix l c s1 s2
    show "stops_or_same (k1 l c s1) (k2 l c s1)"
      by (rule Suc.prems)
  qed
qed

lemma stops_or_same_group_dispatch:
  assumes o: "\<And>i ka kb t. (\<And>l c s. stops_or_same (ka l c s) (kb l c s))
                 \<Longrightarrow> stops_or_same (once i g ka t) (once i g kb t)"
    and t: "\<And>l c t. stops_or_same (tail1 l c t) (tail2 l c t)"
    and z: "\<And>t. stops_or_same (zero1 t) (zero2 t)"
  shows "stops_or_same
           (case qo of
              None \<Rightarrow> once inp g tail1 s
            | Some q \<Rightarrow>
                if q = CHR ''?'' then
                  (case once inp g tail1 s of Cont s' \<Rightarrow> zero1 s' | r \<Rightarrow> r)
                else if q = CHR ''+'' then match_plus_group n once inp g tail1 s
                else Cont s)
           (case qo of
              None \<Rightarrow> once inp g tail2 s
            | Some q \<Rightarrow>
                if q = CHR ''?'' then
                  (case once inp g tail2 s of Cont s' \<Rightarrow> zero2 s' | r \<Rightarrow> r)
                else if q = CHR ''+'' then match_plus_group n once inp g tail2 s
                else Cont s)"
proof (cases qo)
  case None
  show ?thesis unfolding None option.case by (rule o) (rule t)
next
  case (Some q)
  have a: "stops_or_same (case once inp g tail1 s of Cont s' \<Rightarrow> zero1 s' | r \<Rightarrow> r)
             (case once inp g tail2 s of Cont s' \<Rightarrow> zero2 s' | r \<Rightarrow> r)"
    by (rule stops_or_same_seq) (rule o, rule t, rule z)
  have b: "stops_or_same (match_plus_group n once inp g tail1 s)
             (match_plus_group n once inp g tail2 s)"
    by (rule stops_or_same_plus) (erule o, rule t)
  show ?thesis
    unfolding Some option.case using a b by (simp add: stops_or_same_refl)
qed

lemma stops_or_same_atom_dispatch:
  assumes e: "\<And>j t. stops_or_same (ex1 j t) (ex2 j t)"
  shows "stops_or_same
           (case qo of
              None \<Rightarrow> if c then ex1 1 s else Cont s
            | Some q \<Rightarrow>
                if q = CHR ''+'' then (if nc then Cont s else for_each js1 ex1 s)
                else if q = CHR ''?'' then
                  (case (if c then ex1 1 s else Cont s) of Cont s' \<Rightarrow> ex1 0 s' | r \<Rightarrow> r)
                else for_each js0 ex1 s)
           (case qo of
              None \<Rightarrow> if c then ex2 1 s else Cont s
            | Some q \<Rightarrow>
                if q = CHR ''+'' then (if nc then Cont s else for_each js1 ex2 s)
                else if q = CHR ''?'' then
                  (case (if c then ex2 1 s else Cont s) of Cont s' \<Rightarrow> ex2 0 s' | r \<Rightarrow> r)
                else for_each js0 ex2 s)"
proof -
  have fe: "stops_or_same (for_each js ex1 s) (for_each js ex2 s)" for js
    by (rule stops_or_same_for_each) (rule e)
  have one: "stops_or_same (if c then ex1 1 s else Cont s) (if c then ex2 1 s else Cont s)"
    by (simp add: e stops_or_same_refl)
  have opt: "stops_or_same
               (case (if c then ex1 1 s else Cont s) of Cont s' \<Rightarrow> ex1 0 s' | r \<Rightarrow> r)
               (case (if c then ex2 1 s else Cont s) of Cont s' \<Rightarrow> ex2 0 s' | r \<Rightarrow> r)"
    by (rule stops_or_same_seq) (rule one, rule e)
  show ?thesis
  proof (cases qo)
    case None
    show ?thesis unfolding None option.case by (rule one)
  next
    case (Some q)
    show ?thesis
      unfolding Some option.case using fe opt by (simp add: stops_or_same_refl)
  qed
qed

lemma stops_or_same_shift:
  "(\<And>l c s. stops_or_same (k1 l c s) (k2 l c s))
     \<Longrightarrow> stops_or_same (k1 (j + r) c s) (k2 (j + r) c s)"
  by simp

lemma match_inner_stops_or_same:
  "(\<And>l c s. stops_or_same (k1 l c s) (k2 l c s))
     \<Longrightarrow> stops_or_same (match_inner n inp pat gc k1 s) (match_inner n inp pat gc k2 s)"
proof (induction n arbitrary: inp pat gc k1 k2 s)
  case 0
  show ?case by (simp add: stops_or_same_refl)
next
  case (Suc n)
  note k = Suc.prems
  have IH: "stops_or_same (match_inner n i p g ka t) (match_inner n i p g kb t)"
    if "\<And>l c s. stops_or_same (ka l c s) (kb l c s)" for i p g t and ka kb :: "'a consumer"
    using that by (rule Suc.IH)
  have sh: "stops_or_same (match_inner n i p g (\<lambda>r c. k1 (j + r) c) t)
              (match_inner n i p g (\<lambda>r c. k2 (j + r) c) t)" for i p g j t
    by (rule IH) (rule k)
  show ?case
  proof (cases "pat = []")
    case True
    then show ?thesis by (simp add: match_inner_empty k)
  next
    case False
    show ?thesis
    proof (cases "parse_expression pat")
      case (Inl e)
      with False show ?thesis by (simp add: match_inner_parse_error stops_or_same_refl)
    next
      case (Inr triple)
      obtain a expr_len negated where p: "parse_expression pat = Inr (a, expr_len, negated)"
        using Inr by (cases triple) auto
      consider (grp) alternatives where "a = Group alternatives"
        | (bref) ref_num where "a = Backreference ref_num"
        | (nofn) "get_match_fn a negated = None" "\<forall>alts. a \<noteq> Group alts"
            "\<forall>r. a \<noteq> Backreference r"
        | (atom) match_fn where "get_match_fn a negated = Some match_fn"
        by (cases "get_match_fn a negated"; cases a) auto
      then show ?thesis
      proof cases
        case grp
        show ?thesis
          unfolding match_inner_group [OF False p [unfolded grp]] Let_def
        proof (rule stops_or_same_group_dispatch)
          fix i t and ka kb :: "'a consumer"
          assume r: "\<And>l c s. stops_or_same (ka l c s) (kb l c s)"
          show "stops_or_same
                  (match_group_content_once (match_inner n) alternatives (gc + 1) i (gc + 1) ka t)
                  (match_group_content_once (match_inner n) alternatives (gc + 1) i (gc + 1) kb t)"
            by (rule stops_or_same_once) (erule IH, rule r)
        next
          fix l c t
          show "stops_or_same
                  (match_inner n (drop l inp) (rest_after pat expr_len) c (\<lambda>r. k1 (l + r)) t)
                  (match_inner n (drop l inp) (rest_after pat expr_len) c (\<lambda>r. k2 (l + r)) t)"
            by (rule sh)
        next
          fix t
          show "stops_or_same (match_inner n inp (rest_after pat expr_len) gc k1 t)
                  (match_inner n inp (rest_after pat expr_len) gc k2 t)"
            by (rule IH) (rule k)
        qed
      next
        case bref
        show ?thesis
          unfolding match_inner_backreference [OF False p [unfolded bref]]
          by (simp add: sh stops_or_same_refl split: sum.split option.split)
      next
        case nofn
        show ?thesis
          unfolding match_inner_type_error [OF False p nofn(1,2,3)]
          by (rule stops_or_same_refl)
      next
        case atom
        show ?thesis
          unfolding match_inner_atom [OF False p atom] Let_def
          by (rule stops_or_same_atom_dispatch) (rule sh)
      qed
    qed
  qed
qed

lemma find_matching_paren_loop_append:
  "find_matching_paren_loop pat i d = Inr j \<Longrightarrow> find_matching_paren_loop (pat @ Z) i d = Inr j"
proof (induction pat i d rule: find_matching_paren_loop.induct)
  case (1 pat i open_parens)
  have lt: "i < length pat"
    using "1.prems" by (subst (asm) find_matching_paren_loop.simps) (simp split: if_splits)
  let ?d = "if pat ! i = CHR ''('' then open_parens + 1
            else if pat ! i = CHR '')'' then open_parens - 1 else open_parens"
  show ?case
  proof (cases "?d = 0")
    case True
    have "find_matching_paren_loop pat i open_parens = Inr i"
      using lt True by (subst find_matching_paren_loop.simps) (simp add: Let_def)
    moreover have "find_matching_paren_loop (pat @ Z) i open_parens = Inr i"
      using lt True
      by (subst find_matching_paren_loop.simps) (auto simp add: Let_def nth_append split: if_splits)
    ultimately show ?thesis using "1.prems" by simp
  next
    case False
    have a: "find_matching_paren_loop pat i open_parens = find_matching_paren_loop pat (i + 1) ?d"
      using lt False by (subst find_matching_paren_loop.simps) (simp add: Let_def)
    have b: "find_matching_paren_loop (pat @ Z) i open_parens
               = find_matching_paren_loop (pat @ Z) (i + 1) ?d"
      using lt False
      by (subst find_matching_paren_loop.simps) (auto simp add: Let_def nth_append split: if_splits)
    have "find_matching_paren_loop (pat @ Z) (i + 1) ?d = Inr j"
      using lt False "1.prems" a by (intro "1.IH") simp_all
    then show ?thesis using b by simp
  qed
qed

lemma parse_expression_append_any:
  assumes "parse_expression pat = Inr (a, l, n)" and "pat \<noteq> []"
  shows "parse_expression (pat @ Z) = Inr (a, l, n)"
proof (cases "\<exists>alts. a = Group alts")
  case False
  with assms show ?thesis by (intro parse_expression_append) simp_all
next
  case True
  then obtain alts where a: "a = Group alts" by blast
  obtain cs where pat: "pat = CHR ''('' # cs"
    using assms a
    by (cases pat)
       (auto simp add: parse_expression_def parse_single_atom_def Let_def
          split: if_splits sum.splits)
  from assms(1) obtain j where
    f: "find_matching_paren_loop pat (Suc 0) 1 = Inr j"
    and r: "a = Group (split_alternatives (take (j - 1) (drop 1 pat)))" "l = j + 1" "n = False"
    by (auto simp add: parse_expression_def find_matching_paren_def pat Let_def
        split: sum.splits)
  have j: "j < length pat"
    using find_matching_paren_loop_bounds [OF f] by simp
  have fz: "find_matching_paren_loop (pat @ Z) (Suc 0) 1 = Inr j"
    using f by (rule find_matching_paren_loop_append)
  have jc: "j < Suc (length cs)"
    using j by (simp add: pat)
  show ?thesis
    using fz r jc
    by (simp add: parse_expression_def find_matching_paren_def pat Let_def)
qed

lemma quantifier_of_append_less:
  "l < length pat \<Longrightarrow> quantifier_of (pat @ Z) l = quantifier_of pat l"
  by (simp add: quantifier_of_def nth_append)

lemma rest_after_append_less:
  "l < length pat \<Longrightarrow> rest_after (pat @ Z) l = rest_after pat l @ Z"
  by (simp add: rest_after_def quantifier_of_append_less)

lemma quantifier_of_append_end:
  "q \<in> set ''+?*'' \<Longrightarrow> quantifier_of (pat @ [q]) (length pat) = Some q"
  by (simp add: quantifier_of_def)

lemma rest_after_append_end:
  "q \<in> set ''+?*'' \<Longrightarrow> rest_after (pat @ [q]) (length pat) = []"
  by (simp add: rest_after_def quantifier_of_append_end)

lemma match_inner_plus_star:
  "ends_with_atom P \<Longrightarrow> length P < n \<Longrightarrow> (\<And>l c s. \<exists>u t. k l c s = Stop u t)
     \<Longrightarrow> stops_or_same (match_inner n inp (P @ ''+'') gc k s)
           (match_inner n inp (P @ ''*'') gc k s)"
proof (induction n arbitrary: P inp gc k s)
  case 0
  show ?case by (simp add: stops_or_same_refl)
next
  case (Suc n)
  note st = Suc.prems(3)
  have sts: "\<exists>u t. k (j + r) c s = Stop u t" for j r c s
    by (rule st)
  from Suc.prems(1) have ne: "P \<noteq> []"
    by (subst (asm) ends_with_atom.simps) (simp split: if_splits)
  from Suc.prems(1) ne obtain a l negated where
    p: "parse_expression P = Inr (a, l, negated)"
    and e: "if l = length P then get_match_fn a negated \<noteq> None
            else ends_with_atom (rest_after P l)"
    by (subst (asm) ends_with_atom.simps) (auto split: sum.splits option.splits if_splits)
  have nz: "P @ Z \<noteq> []" for Z
    using ne by simp
  have pz: "parse_expression (P @ Z) = Inr (a, l, negated)" for Z
    using p ne by (rule parse_expression_append_any)
  have len: "0 < l" "l \<le> length P"
    using parse_expression_length [OF p] by simp_all
  show ?case
  proof (cases "l = length P")
    case True
    with e obtain match_fn where fn: "get_match_fn a negated = Some match_fn"
      by auto
    from Suc.prems(2) ne obtain m where n: "n = Suc m"
      by (cases n) auto
    let ?ex = "\<lambda>j. match_inner n (drop j inp) [] gc (\<lambda>r c. k (j + r) c)"
    let ?K = "count_reps match_fn inp 0"
    have q: "quantifier_of (P @ ''*'') l = Some (CHR ''*'')" "rest_after (P @ ''*'') l = []"
      unfolding True by (simp_all add: quantifier_of_append_end rest_after_append_end)
    have "rev [0..<Suc ?K] = ?K # rev [0..<?K]"
      by simp
    moreover obtain u t where "?ex ?K s = Stop u t"
      using sts [of ?K 0 gc s] unfolding n by (auto simp add: match_inner_empty)
    ultimately have "for_each (rev [0..<Suc ?K]) ?ex s = Stop u t"
      by (simp del: upt_Suc)
    then have "match_inner (Suc n) inp (P @ ''*'') gc k s = Stop u t"
      unfolding match_inner_atom [OF nz pz fn] q Let_def by simp
    then show ?thesis
      by (simp add: stops_or_same_Stop)
  next
    case False
    with len have lt: "l < length P" by simp
    from e False have ea: "ends_with_atom (rest_after P l)" by simp
    have "length (rest_after P l) < length P"
      using len ne by (simp add: rest_after_def)
    with Suc.prems(2) have rl: "length (rest_after P l) < n" by simp
    have IH: "stops_or_same (match_inner n i (rest_after P l @ ''+'') g k' t)
                (match_inner n i (rest_after P l @ ''*'') g k' t)"
      if "\<And>l c s. \<exists>u t. k' l c s = Stop u t" for i g t and k' :: "'a consumer"
      using ea rl that by (rule Suc.IH)
    have sh: "stops_or_same
                (match_inner n i (rest_after P l @ ''+'') g (\<lambda>r c. k (j + r) c) t)
                (match_inner n i (rest_after P l @ ''*'') g (\<lambda>r c. k (j + r) c) t)"
      for i g j t
      by (rule IH) (rule sts)
    note q = quantifier_of_append_less [OF lt] rest_after_append_less [OF lt]
    consider (grp) alternatives where "a = Group alternatives"
      | (bref) ref_num where "a = Backreference ref_num"
      | (nofn) "get_match_fn a negated = None" "\<forall>alts. a \<noteq> Group alts"
          "\<forall>r. a \<noteq> Backreference r"
      | (atom) match_fn where "get_match_fn a negated = Some match_fn"
      by (cases "get_match_fn a negated"; cases a) auto
    then show ?thesis
    proof cases
      case grp
      show ?thesis
        unfolding match_inner_group [OF nz pz [unfolded grp]] q Let_def
      proof (rule stops_or_same_group_dispatch)
        fix i t and ka kb :: "'a consumer"
        assume r: "\<And>l c s. stops_or_same (ka l c s) (kb l c s)"
        show "stops_or_same
                (match_group_content_once (match_inner n) alternatives (gc + 1) i (gc + 1) ka t)
                (match_group_content_once (match_inner n) alternatives (gc + 1) i (gc + 1) kb t)"
          by (rule stops_or_same_once) (erule match_inner_stops_or_same, rule r)
      next
        fix j c t
        show "stops_or_same
                (match_inner n (drop j inp) (rest_after P l @ ''+'') c (\<lambda>r. k (j + r)) t)
                (match_inner n (drop j inp) (rest_after P l @ ''*'') c (\<lambda>r. k (j + r)) t)"
          by (rule sh)
      next
        fix t
        show "stops_or_same (match_inner n inp (rest_after P l @ ''+'') gc k t)
                (match_inner n inp (rest_after P l @ ''*'') gc k t)"
          by (rule IH) (rule st)
      qed
    next
      case bref
      show ?thesis
        unfolding match_inner_backreference [OF nz pz [unfolded bref]] q
        by (simp add: sh stops_or_same_refl split: sum.split option.split)
    next
      case nofn
      show ?thesis
        unfolding match_inner_type_error [OF nz pz nofn(1,2,3)]
        by (rule stops_or_same_refl)
    next
      case atom
      show ?thesis
        unfolding match_inner_atom [OF nz pz atom] q Let_def
        by (rule stops_or_same_atom_dispatch) (rule sh)
    qed
  qed
qed

lemma count_capture_groups_append:
  "q \<noteq> bs \<Longrightarrow> q \<noteq> CHR ''('' \<Longrightarrow>
   count_capture_groups (p @ [q]) = count_capture_groups p"
proof (induction p rule: count_capture_groups.induct)
  case 1
  then show ?case by simp
next
  case (2 c cs)
  show ?case
  proof (cases "c = bs")
    case True
    with 2 show ?thesis by (cases cs) simp_all
  next
    case False
    with 2 show ?thesis by (cases "c = CHR ''(''") (simp_all add: bs_def)
  qed
qed

lemma strip_anchors_quantified:
  assumes "p \<noteq> []" and "q \<noteq> CHR ''$''"
  shows "strip_anchors (p @ [q])
           = (take 1 p = ''^'', False, (if take 1 p = ''^'' then drop 1 p else p) @ [q])"
  using assms by (cases p) (simp_all add: strip_anchors_def)

lemma stops_or_same_StopD:
  "stops_or_same (Stop u t) r \<Longrightarrow> \<exists>u' t'. r = Stop u' t'"
  by (cases r) (simp_all add: stops_or_same_def)

text \<open>
  Claim C2, as amended. When the pattern \<open>p\<close>, after a leading \<open>^\<close> if there is one, ends
  with an atom that has no quantifier of its own, every line that the pattern \<open>p+\<close>
  matches is matched by the pattern \<open>p*\<close> too, at every recursion bound above the length
  of \<open>p\<close>. Whatever stands before that atom is free: groups, backreferences, quantified
  atoms.
\<close>

theorem quantifier_monotonicity_atom:
  assumes "ends_with_atom (if take 1 p = ''^'' then drop 1 p else p)"
    and "length p < n"
    and "match_pattern n (init (p @ ''+'')) s = Returns True e1"
  shows "\<exists>e2. match_pattern n (init (p @ ''*'')) s = Returns True e2"
proof -
  let ?P = "if take 1 p = ''^'' then drop 1 p else p"
  let ?c0 = "replicate (count_capture_groups p) None"
  let ?k = "\<lambda>(len::nat) (counter::nat) t. (Stop () t :: unit outcome)"
  let ?run = "\<lambda>q. if take 1 p = ''^'' then match_inner n s (?P @ [q]) 0 ?k ?c0
                   else for_each [0..<length s + 1]
                          (\<lambda>i. match_inner n (drop i s) (?P @ [q]) 0 ?k) ?c0"
  have "?P \<noteq> []"
    using assms(1) by (subst (asm) ends_with_atom.simps) (simp split: if_splits)
  then have pne: "p \<noteq> []"
    by (auto split: if_splits)
  have lp: "length ?P < n"
    using assms(2) by auto
  have g: "count_capture_groups (p @ [q]) = count_capture_groups p" if "q \<in> set ''+*''" for q
    using that by (intro count_capture_groups_append) (auto simp add: bs_def)
  have m: "match_pattern n (init (p @ [q])) s =
             (case ?run q of
                OutOfFuel \<Rightarrow> Diverges
              | Raise e t \<Rightarrow> Raises e ((init (p @ [q]))\<lparr>captures := t\<rparr>)
              | Stop u t \<Rightarrow> Returns True ((init (p @ [q]))\<lparr>captures := t\<rparr>)
              | Cont t \<Rightarrow> Returns False ((init (p @ [q]))\<lparr>captures := t\<rparr>))"
    if "q \<in> set ''+*''" for q
  proof -
    have "q \<noteq> CHR ''$''" using that by auto
    moreover have "pattern (init x) = x" "num_capture_groups (init x) = count_capture_groups x"
      for x by (simp_all add: init_def)
    ultimately show ?thesis
      using strip_anchors_quantified [OF pne, of q]
      by (simp add: match_pattern_def has_match_def g [OF that] Let_def del: upt_Suc)
  qed
  have M: "stops_or_same (match_inner n i (?P @ ''+'') 0 ?k t) (match_inner n i (?P @ ''*'') 0 ?k t)"
    for i t
    using assms(1) lp by (rule match_inner_plus_star) simp
  have R: "stops_or_same (?run (CHR ''+'')) (?run (CHR ''*''))"
  proof (cases "take 1 p = ''^''")
    case True
    then show ?thesis using M [of s ?c0] by simp
  next
    case False
    have "stops_or_same
            (for_each [0..<length s + 1] (\<lambda>i. match_inner n (drop i s) (?P @ ''+'') 0 ?k) ?c0)
            (for_each [0..<length s + 1] (\<lambda>i. match_inner n (drop i s) (?P @ ''*'') 0 ?k) ?c0)"
      by (rule stops_or_same_for_each) (rule M)
    with False show ?thesis by (simp del: upt_Suc)
  qed
  from assms(3) obtain u t where "?run (CHR ''+'') = Stop u t"
    unfolding m [of "CHR ''+''", simplified] by (auto split: outcome.splits)
  with R obtain u' t' where "?run (CHR ''*'') = Stop u' t'"
    by (auto dest: stops_or_same_StopD)
  then show ?thesis
    unfolding m [of "CHR ''*''", simplified] by simp
qed

theorem quantifier_monotonicity_atom_witness:
  "ends_with_atom (if take 1 ''(x|b)?a'' = ''^'' then drop 1 ''(x|b)?a'' else ''(x|b)?a'')
   \<and> length ''(x|b)?a'' < 8
   \<and> match_pattern 8 (init (''(x|b)?a'' @ ''+'')) ''zbaa''
       = Returns True ((init (''(x|b)?a'' @ ''+''))\<lparr>captures := [Some ''b'']\<rparr>)
   \<and> (\<exists>e2. match_pattern 8 (init (''(x|b)?a'' @ ''*'')) ''zbaa'' = Returns True e2)"
proof -
  have e: "ends_with_atom (if take 1 ''(x|b)?a'' = ''^'' then drop 1 ''(x|b)?a'' else ''(x|b)?a'')"
    by code_simp
  have l: "length ''(x|b)?a'' < 8"
    by simp
  have t: "match_pattern 8 (init (''(x|b)?a'' @ ''+'')) ''zbaa''
             = Returns True ((init (''(x|b)?a'' @ ''+''))\<lparr>captures := [Some ''b'']\<rparr>)"
    by code_simp
  show ?thesis
    using e l t quantifier_monotonicity_atom [OF e l t] by blast
qed

theorem star_on_group_counterexample:
  "match_pattern 4 (init (''(a)'' @ ''+'')) ''a''
     = Returns True ((init (''(a)'' @ ''+''))\<lparr>captures := [Some ''a'']\<rparr>)
   \<and> match_pattern 4 (init (''(a)'' @ ''*'')) ''a''
     = Returns False ((init (''(a)'' @ ''*''))\<lparr>captures := [None]\<rparr>)
   \<and> match_pattern 4 (init (''a+'' @ ''+'')) ''a+'' = Returns True (init (''a+'' @ ''+''))
   \<and> match_pattern 4 (init (''a+'' @ ''*'')) ''a+'' = Returns False (init (''a+'' @ ''*''))"
  by code_simp

end
